theory Spec2Isabelle
  imports Main
begin

section \<open>Python values used by loadcsvs.py\<close>

text \<open>
  Exceptions of the script become values of \<open>error\<close>. The script defines no exception
  class of its own: a file name with too few dash-separated tokens raises Python's
  \<open>IndexError\<close> (the specification calls it MalformedFilename), a timestamp text that
  neither format accepts raises \<open>ValueError\<close> (UnparseableTimestamp), a timestamp
  cell that is not a text raises \<open>TypeError\<close>, a file that is not a zip archive raises
  \<open>BadZipFile\<close>, and a refused connection or a statement that the server does not
  execute raises a connector error (StoreConnectionError, StoreWriteError).
\<close>

datatype error =
  IndexError | ValueError | TypeError | BadZipFile | StoreConnectionError | StoreWriteError

text \<open>\<open>xs[i]\<close> for a non-negative index: out of range raises \<open>IndexError\<close>.\<close>

definition py_index :: "'a list \<Rightarrow> nat \<Rightarrow> error + 'a" where
  "py_index xs i = (if i < length xs then Inr (xs ! i) else Inl IndexError)"

text \<open>\<open>s.split(c)\<close> for a one-character separator: always at least one piece.\<close>

fun split_on :: "char \<Rightarrow> string \<Rightarrow> string list" where
  "split_on c [] = [[]]"
| "split_on c (x # xs) =
     (if x = c then [] # split_on c xs
      else (case split_on c xs of [] \<Rightarrow> [[x]] | w # ws \<Rightarrow> (x # w) # ws))"

text \<open>\<open>sep.join(ts)\<close>, used to describe file names built from tokens.\<close>

fun join :: "string \<Rightarrow> string list \<Rightarrow> string" where
  "join sep [] = []"
| "join sep [t] = t"
| "join sep (t # u # ts) = t @ sep @ join sep (u # ts)"

text \<open>\<open>os.path.basename\<close> (POSIX): everything after the last slash.\<close>

definition basename :: "string \<Rightarrow> string" where
  "basename p = rev (takeWhile (\<lambda>c. c \<noteq> CHR ''/'') (rev p))"

text \<open>\<open>os.path.join(a, b)\<close> (POSIX) for two components.\<close>

definition path_join :: "string \<Rightarrow> string \<Rightarrow> string" where
  "path_join a b =
     (if b \<noteq> [] \<and> hd b = CHR ''/'' then b
      else if a = [] \<or> last a = CHR ''/'' then a @ b
      else a @ CHR ''/'' # b)"

text \<open>\<open>s.endswith(suf)\<close> and \<open>sub in s\<close>.\<close>

definition endswith :: "string \<Rightarrow> string \<Rightarrow> bool" where
  "endswith s suf = (length suf \<le> length s \<and> drop (length s - length suf) s = suf)"

fun startswith :: "string \<Rightarrow> string \<Rightarrow> bool" where
  "startswith s [] = True"
| "startswith [] (c # cs) = False"
| "startswith (x # xs) (c # cs) = (x = c \<and> startswith xs cs)"

fun contains :: "string \<Rightarrow> string \<Rightarrow> bool" where
  "contains sub [] = (sub = [])"
| "contains sub (x # xs) = (startswith (x # xs) sub \<or> contains sub xs)"

section \<open>Table Name Resolver\<close>

text \<open>
  \<^verbatim>\<open>
  def get_table_name(filename):
      parts = os.path.basename(filename).split('.')[0].split('-')
      forex_pair = parts[0]
      year_month = parts[1] + "_" + parts[2]
      return f"{forex_pair}_{year_month}"
  \<close>
\<close>

definition get_table_name :: "string \<Rightarrow> error + string" where
  "get_table_name filename =
     (case py_index (split_on (CHR ''.'') (basename filename)) 0 of
        Inl e \<Rightarrow> Inl e
      | Inr stem \<Rightarrow>
          (let parts = split_on (CHR ''-'') stem in
           case py_index parts 0 of
             Inl e \<Rightarrow> Inl e
           | Inr forex_pair \<Rightarrow>
               (case py_index parts 1 of
                  Inl e \<Rightarrow> Inl e
                | Inr p1 \<Rightarrow>
                    (case py_index parts 2 of
                       Inl e \<Rightarrow> Inl e
                     | Inr p2 \<Rightarrow>
                         (let year_month = p1 @ ''_'' @ p2
                          in Inr (forex_pair @ ''_'' @ year_month))))))"

section \<open>Timestamp Normalizer\<close>

text \<open>
  The value of Python's \<open>datetime\<close>: calendar fields and microseconds. The script only
  builds naive datetimes, so there is no time zone field.
\<close>

record datetime =
  year :: nat
  month :: nat
  day :: nat
  hour :: nat
  minute :: nat
  second :: nat
  microsecond :: nat

subsection \<open>Characters and decimal numbers\<close>

text \<open>
  Texts are strings of 8-bit characters (code points below 256). On these, the class
  \<open>\d\<close> of the compiled patterns of \<open>_strptime\<close> is the ten ASCII digits, and the
  class \<open>\s\<close> is the characters for which \<open>str.isspace\<close> holds: 0x09 to 0x0D,
  0x1C to 0x1F, the space, 0x85 and 0xA0. \<open>py_int\<close> is \<open>int(s)\<close> on a captured group,
  which is a text of ASCII digits, for the day possibly after one space; on an ASCII
  text \<open>int\<close> skips the ASCII white space 0x09 to 0x0D and the space. \<open>str_nat\<close> is
  \<open>str(n)\<close> and \<open>zfill\<close> the zero-padded formatting (\<open>%02d\<close>, \<open>%06d\<close>).
\<close>

definition is_digit :: "char \<Rightarrow> bool" where
  "is_digit c = (48 \<le> (of_char c :: nat) \<and> (of_char c :: nat) \<le> 57)"

definition in_range :: "char \<Rightarrow> char \<Rightarrow> char \<Rightarrow> bool" where
  "in_range a b c = ((of_char a :: nat) \<le> of_char c \<and> (of_char c :: nat) \<le> of_char b)"

definition is_space :: "char \<Rightarrow> bool" where
  "is_space c =
     (c \<in> set [CHR 0x09, CHR 0x0A, CHR 0x0B, CHR 0x0C, CHR 0x0D, CHR 0x1C, CHR 0x1D, CHR 0x1E,
                CHR 0x1F, CHR '' '', CHR 0x85, CHR 0xA0])"

definition is_ascii_space :: "char \<Rightarrow> bool" where
  "is_ascii_space c = (c \<in> set [CHR 0x09, CHR 0x0A, CHR 0x0B, CHR 0x0C, CHR 0x0D, CHR '' ''])"

definition digit_val :: "char \<Rightarrow> nat" where
  "digit_val c = of_char c - 48"

definition digit_char :: "nat \<Rightarrow> char" where
  "digit_char k = char_of (48 + k)"

definition py_int :: "string \<Rightarrow> nat" where
  "py_int s = foldl (\<lambda>a c. 10 * a + digit_val c) 0 (dropWhile is_ascii_space s)"

fun str_nat :: "nat \<Rightarrow> string" where
  "str_nat k = (if k < 10 then [digit_char k] else str_nat (k div 10) @ [digit_char (k mod 10)])"

declare str_nat.simps [simp del]

definition zfill :: "nat \<Rightarrow> nat \<Rightarrow> string" where
  "zfill w k = replicate (w - length (str_nat k)) (CHR ''0'') @ str_nat k"

subsection \<open>The compiled format patterns\<close>

text \<open>
  \<open>datetime.strptime\<close> compiles a format into a regular expression and applies
  \<open>re.match\<close>. For the two formats of \<open>parse_timestamp\<close> the expression is
  \<^verbatim>\<open>(?P<Y>\d\d\d\d)(?P<m>1[0-2]|0[1-9]|[1-9])(?P<d>3[0-1]|[1-2]\d|0[1-9]|[1-9]| [1-9])\s+\<close>
  \<^verbatim>\<open>(?P<H>2[0-3]|[0-1]\d|\d):(?P<M>[0-5]\d|\d):(?P<S>6[0-1]|[0-5]\d|\d)\<close>
  followed, for the fractional format, by \<^verbatim>\<open>\.(?P<f>[0-9]{1,6})\<close>.
  \<open>rmatch\<close> is a backtracking matcher: it returns every way to match a prefix, as the
  list of (groups captured, rest of the text), in the order \<open>re.match\<close> tries them
  (alternatives left to right, repetitions longest first). The first element is the
  match \<open>re.match\<close> returns.
\<close>

datatype rx = Dig | Rng char char | Lit char | Ws1 | Dig1to6 | Cat rx rx | Alt rx rx | Grp char rx

type_synonym mstate = "(char \<times> string) list \<times> string"

fun rmatch :: "rx \<Rightarrow> mstate \<Rightarrow> mstate list" where
  "rmatch Dig (g, s) = (case s of [] \<Rightarrow> [] | c # r \<Rightarrow> if is_digit c then [(g, r)] else [])"
| "rmatch (Rng a b) (g, s) = (case s of [] \<Rightarrow> [] | c # r \<Rightarrow> if in_range a b c then [(g, r)] else [])"
| "rmatch (Lit a) (g, s) = (case s of [] \<Rightarrow> [] | c # r \<Rightarrow> if c = a then [(g, r)] else [])"
| "rmatch Ws1 (g, s) =
     map (\<lambda>k. (g, drop k s)) (rev [1 ..< Suc (length (takeWhile is_space s))])"
| "rmatch Dig1to6 (g, s) =
     map (\<lambda>k. (g, drop k s)) (rev [1 ..< Suc (min 6 (length (takeWhile is_digit s)))])"
| "rmatch (Cat p q) st = concat (map (rmatch q) (rmatch p st))"
| "rmatch (Alt p q) st = rmatch p st @ rmatch q st"
| "rmatch (Grp k p) (g, s) =
     map (\<lambda>(g', r). ((k, take (length s - length r) s) # g', r)) (rmatch p (g, s))"

fun rmatch_seq :: "rx list \<Rightarrow> mstate \<Rightarrow> mstate list" where
  "rmatch_seq [] st = [st]"
| "rmatch_seq (p # ps) st = concat (map (rmatch_seq ps) (rmatch p st))"

definition rx_Y :: rx where
  "rx_Y = Grp (CHR ''Y'') (Cat Dig (Cat Dig (Cat Dig Dig)))"

definition rx_m :: rx where
  "rx_m = Grp (CHR ''m'')
     (Alt (Cat (Lit (CHR ''1'')) (Rng (CHR ''0'') (CHR ''2'')))
     (Alt (Cat (Lit (CHR ''0'')) (Rng (CHR ''1'') (CHR ''9'')))
          (Rng (CHR ''1'') (CHR ''9''))))"

definition rx_d :: rx where
  "rx_d = Grp (CHR ''d'')
     (Alt (Cat (Lit (CHR ''3'')) (Rng (CHR ''0'') (CHR ''1'')))
     (Alt (Cat (Rng (CHR ''1'') (CHR ''2'')) Dig)
     (Alt (Cat (Lit (CHR ''0'')) (Rng (CHR ''1'') (CHR ''9'')))
     (Alt (Rng (CHR ''1'') (CHR ''9''))
          (Cat (Lit (CHR '' '')) (Rng (CHR ''1'') (CHR ''9'')))))))"

definition rx_H :: rx where
  "rx_H = Grp (CHR ''H'')
     (Alt (Cat (Lit (CHR ''2'')) (Rng (CHR ''0'') (CHR ''3'')))
     (Alt (Cat (Rng (CHR ''0'') (CHR ''1'')) Dig)
          Dig))"

definition rx_M :: rx where
  "rx_M = Grp (CHR ''M'') (Alt (Cat (Rng (CHR ''0'') (CHR ''5'')) Dig) Dig)"

definition rx_S :: rx where
  "rx_S = Grp (CHR ''S'')
     (Alt (Cat (Lit (CHR ''6'')) (Rng (CHR ''0'') (CHR ''1'')))
     (Alt (Cat (Rng (CHR ''0'') (CHR ''5'')) Dig)
          Dig))"

definition rx_f :: rx where
  "rx_f = Grp (CHR ''f'') Dig1to6"

definition whole_second_pattern :: "rx list" where
  "whole_second_pattern =
     [rx_Y, rx_m, rx_d, Ws1, rx_H, Lit (CHR '':''), rx_M, Lit (CHR '':''), rx_S]"

definition fractional_pattern :: "rx list" where
  "fractional_pattern = whole_second_pattern @ [Lit (CHR ''.''), rx_f]"

subsection \<open>strptime, parse\_timestamp, format\_datetime\_with\_ms\<close>

text \<open>
  After the match, \<open>_strptime\<close> raises \<open>ValueError\<close> when there is no match or when
  text remains after it, converts the groups with \<open>int\<close> (the fraction is padded with
  zeros on the right to six digits), and the \<open>date\<close> and \<open>datetime\<close> constructors
  raise \<open>ValueError\<close> for a day that the month does not have, a year outside 1..9999 or
  a second above 59.
  \<^verbatim>\<open>
  def parse_timestamp(timestamp_str):
      try:
          return datetime.strptime(timestamp_str, '%Y%m%d %H:%M:%S.%f')
      except ValueError:
          return datetime.strptime(timestamp_str, '%Y%m%d %H:%M:%S')

  def format_datetime_with_ms(dt):
      return dt.strftime('%Y-%m-%d %H:%M:%S.%f')[:-3]
  \<close>
  \<open>strftime_us\<close> is \<open>dt.strftime('%Y-%m-%d %H:%M:%S.%f')\<close>; \<open>%Y\<close> is the plain
  decimal year, which has four digits from year 1000 on.
\<close>

definition is_leap :: "nat \<Rightarrow> bool" where
  "is_leap y = (y mod 4 = 0 \<and> (y mod 100 \<noteq> 0 \<or> y mod 400 = 0))"

definition days_in_month :: "nat \<Rightarrow> nat \<Rightarrow> nat" where
  "days_in_month y m =
     (if m = 2 then (if is_leap y then 29 else 28)
      else if m \<in> set [4, 6, 9, 11] then 30 else 31)"

definition valid_datetime :: "datetime \<Rightarrow> bool" where
  "valid_datetime dt =
     (1 \<le> year dt \<and> year dt \<le> 9999 \<and> 1 \<le> month dt \<and> month dt \<le> 12
      \<and> 1 \<le> day dt \<and> day dt \<le> days_in_month (year dt) (month dt)
      \<and> hour dt \<le> 23 \<and> minute dt \<le> 59 \<and> second dt \<le> 59
      \<and> microsecond dt \<le> 999999)"

definition group_int :: "(char \<times> string) list \<Rightarrow> char \<Rightarrow> nat \<Rightarrow> nat" where
  "group_int g k dflt = (case map_of g k of None \<Rightarrow> dflt | Some t \<Rightarrow> py_int t)"

definition group_fraction :: "(char \<times> string) list \<Rightarrow> nat" where
  "group_fraction g =
     (case map_of g (CHR ''f'') of
        None \<Rightarrow> 0
      | Some t \<Rightarrow> py_int (t @ replicate (6 - length t) (CHR ''0'')))"

definition strptime :: "string \<Rightarrow> rx list \<Rightarrow> error + datetime" where
  "strptime data_string format_regex =
     (case rmatch_seq format_regex ([], data_string) of
        [] \<Rightarrow> Inl ValueError
      | (g, rest) # _ \<Rightarrow>
          if rest \<noteq> [] then Inl ValueError
          else
            (let dt = \<lparr> year = group_int g (CHR ''Y'') 1900,
                        month = group_int g (CHR ''m'') 1,
                        day = group_int g (CHR ''d'') 1,
                        hour = group_int g (CHR ''H'') 0,
                        minute = group_int g (CHR ''M'') 0,
                        second = group_int g (CHR ''S'') 0,
                        microsecond = group_fraction g \<rparr>
             in if valid_datetime dt then Inr dt else Inl ValueError))"

definition parse_timestamp :: "string \<Rightarrow> error + datetime" where
  "parse_timestamp timestamp_str =
     (case strptime timestamp_str fractional_pattern of
        Inr dt \<Rightarrow> Inr dt
      | Inl e \<Rightarrow>
          if e = ValueError then strptime timestamp_str whole_second_pattern else Inl e)"

definition strftime_us :: "datetime \<Rightarrow> string" where
  "strftime_us dt =
     str_nat (year dt) @ ''-'' @ zfill 2 (month dt) @ ''-'' @ zfill 2 (day dt) @ '' ''
     @ zfill 2 (hour dt) @ '':'' @ zfill 2 (minute dt) @ '':'' @ zfill 2 (second dt)
     @ ''.'' @ zfill 6 (microsecond dt)"

definition format_datetime_with_ms :: "datetime \<Rightarrow> string" where
  "format_datetime_with_ms dt = (let s = strftime_us dt in take (length s - 3) s)"

text \<open>
  The two input forms the claims speak of, built from field values:
  \<open>stamp_text\<close> is YYYYMMDD HH:MM:SS, \<open>iso_text\<close> is YYYY-MM-DD HH:MM:SS, and
  \<open>valid_fields\<close> says the fields are a calendar date and a time of day.
\<close>

definition stamp_text :: "nat \<Rightarrow> nat \<Rightarrow> nat \<Rightarrow> nat \<Rightarrow> nat \<Rightarrow> nat \<Rightarrow> string" where
  "stamp_text y m d H M S =
     zfill 4 y @ zfill 2 m @ zfill 2 d @ '' '' @ zfill 2 H @ '':'' @ zfill 2 M @ '':'' @ zfill 2 S"

definition iso_text :: "nat \<Rightarrow> nat \<Rightarrow> nat \<Rightarrow> nat \<Rightarrow> nat \<Rightarrow> nat \<Rightarrow> string" where
  "iso_text y m d H M S =
     zfill 4 y @ ''-'' @ zfill 2 m @ ''-'' @ zfill 2 d @ '' '' @ zfill 2 H @ '':'' @ zfill 2 M
     @ '':'' @ zfill 2 S"

definition valid_fields :: "nat \<Rightarrow> nat \<Rightarrow> nat \<Rightarrow> nat \<Rightarrow> nat \<Rightarrow> nat \<Rightarrow> bool" where
  "valid_fields y m d H M S =
     (1 \<le> y \<and> y \<le> 9999 \<and> 1 \<le> m \<and> m \<le> 12 \<and> 1 \<le> d \<and> d \<le> days_in_month y m
      \<and> H \<le> 23 \<and> M \<le> 59 \<and> S \<le> 59)"

section \<open>Store Writer\<close>

text \<open>
  The store is the MySQL database the script connects to. A table has the schema of the
  script's \<open>CREATE TABLE\<close> statement and its rows in insertion order; the primary key
  is the timestamp. The bid and ask values are whatever the CSV reader produced: the
  script neither inspects nor converts them, so the model is polymorphic in their type
  and a row of the model holds the values as the script hands them to the connector.
\<close>

datatype coltype = DATETIME nat | DECIMAL nat nat

record schema =
  columns :: "(string \<times> coltype) list"
  primary_key :: string
  indexes :: "(string \<times> string) list"

definition tick_schema :: schema where
  "tick_schema =
     \<lparr>columns = [(''timestamp'', DATETIME 6), (''bid'', DECIMAL 10 5), (''ask'', DECIMAL 10 5)],
      primary_key = ''timestamp'',
      indexes = [(''idx_bid'', ''bid''), (''idx_ask'', ''ask''), (''idx_timestamp'', ''timestamp'')]\<rparr>"

type_synonym 'v row = "datetime \<times> 'v \<times> 'v"

record 'v table =
  table_schema :: schema
  table_rows :: "'v row list"

type_synonym 'v database = "string \<rightharpoonup> 'v table"

text \<open>The instant 2024-08-01 00:00:00.110 of the specification's examples.\<close>

definition tick_instant :: datetime where
  "tick_instant =
     \<lparr>year = 2024, month = 8, day = 1, hour = 0, minute = 0, second = 0, microsecond = 110000\<rparr>"

text \<open>
  \<open>CREATE TABLE IF NOT EXISTS\<close>. The script splices the table name into the statement
  as it is, without quoting, so it is the server that decides whether the statement
  with this name is one it executes (it does for a plain name such as EURUSD\_2024\_08,
  and raises an error for a name such as \<open>EURUSD_2024_08 (1)\<close>). That decision is not
  in the script: it is the parameter \<open>accepts\<close>. When the statement is executed, an
  existing table is left as it is.
\<close>

definition create_table_if_not_exists ::
  "(string \<Rightarrow> bool) \<Rightarrow> 'v database \<Rightarrow> string \<Rightarrow> error + 'v database" where
  "create_table_if_not_exists accepts db table_name =
     (if \<not> accepts table_name then Inl StoreWriteError
      else
        (case db table_name of
           None \<Rightarrow> Inr (db(table_name \<mapsto> \<lparr>table_schema = tick_schema, table_rows = []\<rparr>))
         | Some _ \<Rightarrow> Inr db))"

text \<open>
  A server's decision for the examples: it executes the statement for the names made of
  ASCII letters, digits, underscore and dollar sign.
\<close>

definition bare_identifier :: "string \<Rightarrow> bool" where
  "bare_identifier n =
     (n \<noteq> [] \<and> list_all (\<lambda>c. in_range (CHR ''0'') (CHR ''9'') c \<or> in_range (CHR ''A'') (CHR ''Z'') c
                             \<or> in_range (CHR ''a'') (CHR ''z'') c \<or> c = CHR ''_'' \<or> c = CHR ''$'') n)"

text \<open>
  \<open>INSERT IGNORE\<close> of one row: a row whose primary key is already in the table is
  discarded without error. \<open>executemany\<close> runs it for the rows of a batch in order, and
  fails when the table does not exist.
\<close>

definition insert_ignore :: "'v row list \<Rightarrow> 'v row \<Rightarrow> 'v row list" where
  "insert_ignore rows r = (if fst r \<in> set (map fst rows) then rows else rows @ [r])"

definition insert_batch :: "'v row list \<Rightarrow> 'v row list \<Rightarrow> 'v row list" where
  "insert_batch rows vs = foldl insert_ignore rows vs"

definition executemany :: "'v database \<Rightarrow> string \<Rightarrow> 'v row list \<Rightarrow> error + 'v database" where
  "executemany db table_name vs =
     (case db table_name of
        None \<Rightarrow> Inl StoreWriteError
      | Some t \<Rightarrow> Inr (db(table_name \<mapsto> t\<lparr>table_rows := insert_batch (table_rows t) vs\<rparr>)))"

section \<open>Row Batch Reader and the per-archive pipeline\<close>

text \<open>
  An archive entry is its name and its payload as \<open>pd.read_csv\<close> decodes it: rows of
  four cells (pair, timestamp, bid, ask). The decoding of bytes into rows is not
  modelled. The reader leaves a timestamp cell as a text, or makes it a number (when the
  whole column reads as numbers; an empty cell becomes NaN): \<open>NotText\<close>.
  \<open>chunks\<close> is the iteration with \<open>chunksize\<close>: consecutive groups of that many rows,
  the last one shorter; a payload without rows yields one group of no rows.
\<close>

datatype cell = Text string | NotText

type_synonym 'v csv_row = "'v \<times> cell \<times> 'v \<times> 'v"

type_synonym 'v zip_entry = "string \<times> 'v csv_row list"

datatype 'v file_content = ZipArchive "'v zip_entry list" | NotAZipFile

text \<open>
  The state the script works on: the open connection (the server's decision on table
  names, and the tables of the selected database) and the lines printed.
\<close>

record 'v state =
  accepts :: "string \<Rightarrow> bool"
  tables :: "'v database"
  stdout :: "string list"

definition chunk_size :: nat where
  "chunk_size = 100000"

function chunks :: "nat \<Rightarrow> 'a list \<Rightarrow> 'a list list" where
  "chunks n xs =
     (if n = 0 \<or> length xs \<le> n then [xs] else take n xs # chunks n (drop n xs))"
  by pat_completeness auto
termination
  by (relation "measure (\<lambda>(n, xs). length xs)") auto

declare chunks.simps [simp del]

text \<open>
  The body of the chunk loop: drop the pair column, run \<open>parse_timestamp\<close> over the
  timestamp column (the first failure raises; for a cell that is not a text,
  \<open>strptime\<close> raises \<open>TypeError\<close>, which \<open>parse_timestamp\<close> does not catch), build the
  value tuples, insert them in one \<open>executemany\<close> and commit. A result \<open>Some e\<close> is
  the exception raised, with the state as committed so far.
\<close>

definition apply_parse_timestamp :: "cell \<Rightarrow> error + datetime" where
  "apply_parse_timestamp c = (case c of Text s \<Rightarrow> parse_timestamp s | NotText \<Rightarrow> Inl TypeError)"

fun parse_rows :: "'v csv_row list \<Rightarrow> error + 'v row list" where
  "parse_rows [] = Inr []"
| "parse_rows ((pair, timestamp, bid, ask) # rs) =
     (case apply_parse_timestamp timestamp of
        Inl e \<Rightarrow> Inl e
      | Inr t \<Rightarrow>
          (case parse_rows rs of
             Inl e \<Rightarrow> Inl e
           | Inr vs \<Rightarrow> Inr ((t, bid, ask) # vs)))"

definition process_chunk :: "string \<Rightarrow> 'v state \<Rightarrow> 'v csv_row list \<Rightarrow> error option \<times> 'v state" where
  "process_chunk table_name st chunk =
     (case parse_rows chunk of
        Inl e \<Rightarrow> (Some e, st)
      | Inr vs \<Rightarrow>
          (case executemany (tables st) table_name vs of
             Inl e \<Rightarrow> (Some e, st)
           | Inr db \<Rightarrow>
               (None, st\<lparr>tables := db,
                          stdout := stdout st @
                            [''Inserted '' @ str_nat (length vs) @ '' records into '' @ table_name]\<rparr>)))"

fun process_chunks :: "string \<Rightarrow> 'v state \<Rightarrow> 'v csv_row list list \<Rightarrow> error option \<times> 'v state" where
  "process_chunks table_name st [] = (None, st)"
| "process_chunks table_name st (c # cs) =
     (case process_chunk table_name st c of
        (Some e, st') \<Rightarrow> (Some e, st')
      | (None, st') \<Rightarrow> process_chunks table_name st' cs)"

fun process_entries :: "string \<Rightarrow> 'v state \<Rightarrow> 'v zip_entry list \<Rightarrow> error option \<times> 'v state" where
  "process_entries table_name st [] = (None, st)"
| "process_entries table_name st ((filename, payload) # es) =
     (if endswith filename ''.csv'' then
        (case process_chunks table_name st (chunks chunk_size payload) of
           (Some e, st') \<Rightarrow> (Some e, st')
         | (None, st') \<Rightarrow> process_entries table_name st' es)
      else process_entries table_name st es)"

definition process_zip_file ::
  "string \<Rightarrow> 'v file_content \<Rightarrow> 'v state \<Rightarrow> (error + string) \<times> 'v state" where
  "process_zip_file zip_path content st =
     (case get_table_name zip_path of
        Inl e \<Rightarrow> (Inl e, st)
      | Inr table_name \<Rightarrow>
          (let st1 = st\<lparr>stdout := stdout st @
                          [''Processing '' @ zip_path @ '' into table '' @ table_name]\<rparr>
           in case create_table_if_not_exists (accepts st1) (tables st1) table_name of
                Inl e \<Rightarrow> (Inl e, st1)
              | Inr db \<Rightarrow>
                  (let st2 = st1\<lparr>tables := db\<rparr>
                   in case content of
                        NotAZipFile \<Rightarrow> (Inl BadZipFile, st2)
                      | ZipArchive entries \<Rightarrow>
                          (case process_entries table_name st2 entries of
                             (Some e, st3) \<Rightarrow> (Inl e, st3)
                           | (None, st3) \<Rightarrow>
                               (Inr table_name,
                                st3\<lparr>stdout := stdout st3 @
                                      [''Finished processing '' @ table_name]\<rparr>)))))"

text \<open>
  The batches of an archive in the order the loops reach them: the terms in which the
  claims about a failing import are stated.
\<close>

definition archive_batches :: "'v zip_entry list \<Rightarrow> 'v csv_row list list" where
  "archive_batches entries =
     concat (map (\<lambda>(filename, payload). chunks chunk_size payload)
                 (filter (\<lambda>(filename, payload). endswith filename ''.csv'') entries))"

section \<open>Directory Walker and entry point\<close>

text \<open>
  The directory tree under the data root: a directory lists its entries in the order
  \<open>os.walk\<close> reports them. \<open>walk\<close> is \<open>os.walk\<close> top-down: each directory yields its
  path and its files, then its subdirectories are walked; a root that is not a directory
  yields nothing.
\<close>

datatype 'v fs_node = File "'v file_content" | Dir "(string \<times> 'v fs_node) list"

definition files_of :: "(string \<times> 'v fs_node) list \<Rightarrow> (string \<times> 'v file_content) list" where
  "files_of es = concat (map (\<lambda>(n, e). case e of File c \<Rightarrow> [(n, c)] | Dir _ \<Rightarrow> []) es)"

fun walk :: "string \<Rightarrow> 'v fs_node \<Rightarrow> (string \<times> (string \<times> 'v file_content) list) list" where
  "walk dirpath (File c) = []"
| "walk dirpath (Dir es) =
     (dirpath, files_of es)
     # concat (map (\<lambda>ne. walk (path_join dirpath (fst ne)) (snd ne)) es)"

definition currency_codes :: "string list" where
  "currency_codes = [''USD'', ''EUR'', ''GBP'', ''JPY'', ''AUD'', ''CAD'', ''CHF'', ''NZD'']"

definition admitted :: "string \<Rightarrow> bool" where
  "admitted file = (endswith file ''.zip'' \<and> list_ex (\<lambda>cur. contains cur file) currency_codes)"

definition process_file ::
  "string \<Rightarrow> string \<Rightarrow> 'v file_content \<Rightarrow> 'v state \<Rightarrow> string list
   \<Rightarrow> (error + string list) \<times> 'v state" where
  "process_file root file content st processed_tables =
     (if admitted file then
        (let zip_path = path_join root file in
         case process_zip_file zip_path content st of
           (Inl e, st') \<Rightarrow> (Inl e, st')
         | (Inr table_name, st') \<Rightarrow> (Inr (processed_tables @ [table_name]), st'))
      else (Inr processed_tables, st))"

fun process_files ::
  "string \<Rightarrow> (string \<times> 'v file_content) list \<Rightarrow> 'v state \<Rightarrow> string list
   \<Rightarrow> (error + string list) \<times> 'v state" where
  "process_files root [] st processed_tables = (Inr processed_tables, st)"
| "process_files root ((file, content) # fs) st processed_tables =
     (case process_file root file content st processed_tables of
        (Inl e, st') \<Rightarrow> (Inl e, st')
      | (Inr processed', st') \<Rightarrow> process_files root fs st' processed')"

fun process_dirs ::
  "(string \<times> (string \<times> 'v file_content) list) list \<Rightarrow> 'v state \<Rightarrow> string list
   \<Rightarrow> (error + string list) \<times> 'v state" where
  "process_dirs [] st processed_tables = (Inr processed_tables, st)"
| "process_dirs ((root, files) # ds) st processed_tables =
     (case process_files root files st processed_tables of
        (Inl e, st') \<Rightarrow> (Inl e, st')
      | (Inr processed', st') \<Rightarrow> process_dirs ds st' processed')"

text \<open>
  The archives the walk admits, as the paths handed to \<open>process_zip_file\<close>, in the
  order of the walk.
\<close>

definition admitted_paths :: "(string \<times> (string \<times> 'v file_content) list) list \<Rightarrow> string list" where
  "admitted_paths w =
     concat (map (\<lambda>(root, files).
                    map (\<lambda>(file, content). path_join root file)
                        (filter (\<lambda>(file, content). admitted file) files)) w)"




text \<open>
  The server is unreachable, or it is given by its decision on database names and on
  table names spliced into a statement (\<open>CREATE DATABASE IF NOT EXISTS\<close> takes the name
  unquoted too) and holds databases by name. \<open>process_data_directory\<close> connects,
  creates and selects the database, walks the tree and returns the processed table
  names; the server is returned with everything committed, also on failure.
\<close>

datatype 'v server =
  Unreachable | Server "string \<Rightarrow> bool" "string \<Rightarrow> bool" "string \<rightharpoonup> 'v database"

record args =
  host :: string
  user :: string
  password :: string
  database :: string
  data_dir :: string

definition process_data_directory ::
  "string \<Rightarrow> string \<Rightarrow> 'v fs_node \<Rightarrow> 'v server \<Rightarrow> string list
   \<Rightarrow> (error + string list) \<times> 'v server \<times> string list" where
  "process_data_directory dir db_name node srv out =
     (case srv of
        Unreachable \<Rightarrow> (Inl StoreConnectionError, srv, out)
      | Server accepts_database accepts_table dbs \<Rightarrow>
          if \<not> accepts_database db_name then (Inl StoreWriteError, srv, out)
          else
            (let db = (case dbs db_name of None \<Rightarrow> Map.empty | Some d \<Rightarrow> d);
                 st = \<lparr>accepts = accepts_table, tables = db,
                       stdout = out @ [''Using database: '' @ db_name]\<rparr>;
                 (res, st') = process_dirs (walk dir node) st []
             in (res, Server accepts_database accepts_table (dbs(db_name \<mapsto> tables st')),
                 stdout st')))"




section \<open>Facts about the string helpers\<close>

lemma split_on_nonempty: "split_on c s \<noteq> []"
  by (induction s) (auto split: list.splits)

lemma split_on_free: "c \<notin> set s \<Longrightarrow> split_on c s = [s]"
  by (induction s) auto

lemma split_on_append:
  "c \<notin> set a \<Longrightarrow> split_on c (a @ c # r) = a # split_on c r"
  by (induction a) auto

lemma split_on_join:
  "ts \<noteq> [] \<Longrightarrow> \<forall>t\<in>set ts. c \<notin> set t \<Longrightarrow> split_on c (join [c] ts) = ts"
proof (induction ts rule: induct_list012)
  case 1
  then show ?case by simp
next
  case (2 t)
  then show ?case by (simp add: split_on_free)
next
  case (3 t u ts)
  then show ?case by (simp add: split_on_append)
qed

lemma set_join:
  "set (join sep ts) \<subseteq> set sep \<union> \<Union> (set ` set ts)"
  by (induction sep ts rule: join.induct) auto

lemma takeWhile_all: "\<forall>x\<in>set xs. P x \<Longrightarrow> takeWhile P xs = xs"
  by (induction xs) auto

lemma basename_append:
  "CHR ''/'' \<notin> set n \<Longrightarrow> d = [] \<or> last d = CHR ''/'' \<Longrightarrow> basename (d @ n) = n"
proof -
  assume n: "CHR ''/'' \<notin> set n" and d: "d = [] \<or> last d = CHR ''/''"
  have all: "\<forall>x\<in>set (rev n). x \<noteq> CHR ''/''" using n by auto
  have tw: "takeWhile (\<lambda>c. c \<noteq> CHR ''/'') (rev n) = rev n"
    by (rule takeWhile_all [OF all])
  show ?thesis
  proof (cases "d = []")
    case True
    then show ?thesis unfolding basename_def by (simp only: append_Nil tw rev_rev_ident)
  next
    case False
    then have "hd (rev d) = CHR ''/''" using d by (simp add: hd_rev)
    moreover have "rev d \<noteq> []" using False by simp
    ultimately obtain ds where "rev d = CHR ''/'' # ds" by (cases "rev d") auto
    then have "takeWhile (\<lambda>c. c \<noteq> CHR ''/'') (rev n @ rev d) = rev n"
      using all by (simp add: takeWhile_tail)
    then show ?thesis unfolding basename_def by (simp only: rev_append rev_rev_ident)
  qed
qed

lemma stem_of_name:
  "CHR ''.'' \<notin> set n \<Longrightarrow> py_index (split_on (CHR ''.'') (n @ CHR ''.'' # ext)) 0 = Inr n"
  by (simp add: split_on_append py_index_def)

section \<open>Claims about the Table Name Resolver\<close>

text \<open>
  C4. For every archive path whose file name is PAIR-YYYY-MM.ext, where the three tokens
  contain no dash, no dot and no slash, the resolver returns PAIR_YYYY_MM, the tokens
  copied literally (no change of case, no padding). The path may carry any directory
  prefix and any extension text.
\<close>

theorem get_table_name_valid:
  assumes "\<forall>c\<in>{CHR ''-'', CHR ''.'', CHR ''/''}. c \<notin> set pr \<and> c \<notin> set yr \<and> c \<notin> set mo"
    and "CHR ''/'' \<notin> set ext"
    and "dir = [] \<or> last dir = CHR ''/''"
  shows "get_table_name (dir @ pr @ ''-'' @ yr @ ''-'' @ mo @ ''.'' @ ext)
         = Inr (pr @ ''_'' @ yr @ ''_'' @ mo)"
proof -
  let ?stem = "pr @ ''-'' @ yr @ ''-'' @ mo"
  have nodot: "CHR ''.'' \<notin> set ?stem" using assms(1) by auto
  have noslash: "CHR ''/'' \<notin> set (?stem @ ''.'' @ ext)" using assms(1,2) by auto
  have b: "basename (dir @ ?stem @ ''.'' @ ext) = ?stem @ ''.'' @ ext"
    using basename_append [OF noslash assms(3)] .
  have s: "py_index (split_on (CHR ''.'') (?stem @ ''.'' @ ext)) 0 = Inr ?stem"
    using stem_of_name [OF nodot, of ext] by simp
  have p: "split_on (CHR ''-'') ?stem = [pr, yr, mo]"
    using assms(1) by (simp add: split_on_append split_on_free)
  have "get_table_name (dir @ ?stem @ ''.'' @ ext) = Inr (pr @ ''_'' @ yr @ ''_'' @ mo)"
    unfolding get_table_name_def b s by (simp add: p[simplified] py_index_def Let_def)
  then show ?thesis by simp
qed

theorem get_table_name_valid_witness:
  "get_table_name ''data/Aug2024/GBPUSD-2024-08.zip'' = Inr ''GBPUSD_2024_08''"
  using get_table_name_valid [of "''GBPUSD''" "''2024''" "''08''" "''zip''" "''data/Aug2024/''"]
  by simp

text \<open>
  C3 as stated fails: a name with four dash-separated tokens is resolved from its first
  three tokens, not rejected.
\<close>

theorem get_table_name_four_tokens:
  "length (split_on (CHR ''-'') ''EURUSD-2024-08-extra'') = 4
   \<and> get_table_name ''EURUSD-2024-08-extra.zip'' = Inr ''EURUSD_2024_08''"
  by (simp add: get_table_name_def basename_def py_index_def)

text \<open>
  C3, amended. For a file name made of dash-separated tokens (free of dash, dot and
  slash) followed by an extension: with fewer than three tokens the resolver fails with
  \<open>IndexError\<close>; with three or more it returns the first three tokens joined by
  underscores and ignores the rest.
\<close>

theorem get_table_name_tokens:
  assumes "ts \<noteq> []"
    and "\<forall>t\<in>set ts. CHR ''-'' \<notin> set t \<and> CHR ''.'' \<notin> set t \<and> CHR ''/'' \<notin> set t"
    and "CHR ''/'' \<notin> set ext"
  shows "get_table_name (join ''-'' ts @ ''.'' @ ext)
         = (if length ts < 3 then Inl IndexError
            else Inr (ts ! 0 @ ''_'' @ ts ! 1 @ ''_'' @ ts ! 2))"
proof -
  let ?stem = "join ''-'' ts"
  have sub: "set ?stem \<subseteq> set ''-'' \<union> \<Union> (set ` set ts)" by (rule set_join)
  have nodot: "CHR ''.'' \<notin> set ?stem" using sub assms(2) by auto
  have noslash: "CHR ''/'' \<notin> set (?stem @ ''.'' @ ext)" using sub assms(2,3) by auto
  have b: "basename (?stem @ ''.'' @ ext) = ?stem @ ''.'' @ ext"
    using basename_append [OF noslash, of "[]"] by simp
  have s: "py_index (split_on (CHR ''.'') (?stem @ ''.'' @ ext)) 0 = Inr ?stem"
    using stem_of_name [OF nodot, of ext] by simp
  have p: "split_on (CHR ''-'') ?stem = ts"
    using split_on_join [OF assms(1), of "CHR ''-''"] assms(2) by simp
  show ?thesis
    unfolding get_table_name_def b s using assms(1)
    by (auto simp: p py_index_def Let_def)
qed

theorem get_table_name_tokens_witness:
  "get_table_name ''EURUSD-2024.zip'' = Inl IndexError
   \<and> get_table_name ''EURUSD-2024-08-extra.zip'' = Inr ''EURUSD_2024_08''"
  using get_table_name_tokens [of "[''EURUSD'', ''2024'']" "''zip''"]
    get_table_name_tokens [of "[''EURUSD'', ''2024'', ''08'', ''extra'']" "''zip''"]
  by simp

section \<open>Facts about the Timestamp Normalizer\<close>

lemma strptime_error: "strptime s p = Inl e \<Longrightarrow> e = ValueError"
  by (auto simp: strptime_def Let_def split: list.splits if_splits prod.splits)

lemma parse_timestamp_cases:
  "parse_timestamp s =
     (case strptime s fractional_pattern of
        Inr dt \<Rightarrow> Inr dt
      | Inl _ \<Rightarrow>
          (case strptime s whole_second_pattern of Inr dt \<Rightarrow> Inr dt | Inl _ \<Rightarrow> Inl ValueError))"
  by (auto simp: parse_timestamp_def split: sum.splits dest: strptime_error)

lemma of_char_digit_char: "k < 10 \<Longrightarrow> (of_char (digit_char k) :: nat) = 48 + k"
  by (simp add: digit_char_def)

lemma is_digit_digit_char: "k < 10 \<Longrightarrow> is_digit (digit_char k)"
  by (simp add: is_digit_def of_char_digit_char)

lemma not_space_digit: "is_digit c \<Longrightarrow> \<not> is_space c"
  by (auto simp: is_digit_def is_space_def)

lemma not_ascii_space_digit: "is_digit c \<Longrightarrow> \<not> is_ascii_space c"
  by (auto simp: is_digit_def is_ascii_space_def)

lemma digit_val_digit_char: "k < 10 \<Longrightarrow> digit_val (digit_char k) = k"
  by (simp add: digit_val_def of_char_digit_char)

lemma digit_char_digit_val: "is_digit c \<Longrightarrow> digit_char (digit_val c) = c"
  by (simp add: digit_val_def digit_char_def is_digit_def)

lemma digit_val_less: "is_digit c \<Longrightarrow> digit_val c < 10"
  by (auto simp: digit_val_def is_digit_def)

lemma in_range_digit_char:
  "k < 10 \<Longrightarrow> in_range a b (digit_char k) = ((of_char a :: nat) \<le> 48 + k \<and> 48 + k \<le> (of_char b :: nat))"
  by (simp add: in_range_def of_char_digit_char)

lemma digit_char_eq: "k < 10 \<Longrightarrow> (digit_char k = c) = ((of_char c :: nat) = 48 + k)"
proof
  assume "k < 10" "digit_char k = c"
  then show "(of_char c :: nat) = 48 + k" using of_char_digit_char by blast
next
  assume "k < 10" "(of_char c :: nat) = 48 + k"
  then have "char_of (of_char c :: nat) = char_of (48 + k)" by simp
  then show "digit_char k = c" by (simp add: digit_char_def)
qed

lemma digit_char_0: "digit_char 0 = CHR ''0''"
  by code_simp

lemmas dsimps = is_digit_digit_char in_range_digit_char digit_char_eq

lemma match_Y:
  "a < 10 \<Longrightarrow> b < 10 \<Longrightarrow> c < 10 \<Longrightarrow> d < 10 \<Longrightarrow>
   rmatch rx_Y (g, digit_char a # digit_char b # digit_char c # digit_char d # r)
   = [((CHR ''Y'', [digit_char a, digit_char b, digit_char c, digit_char d]) # g, r)]"
  by (simp add: rx_Y_def dsimps)

lemma match_m:
  "(a = 1 \<and> b \<le> 2) \<or> (a = 0 \<and> 1 \<le> b \<and> b < 10) \<Longrightarrow>
   \<exists>t. rmatch rx_m (g, digit_char a # digit_char b # r)
       = ((CHR ''m'', [digit_char a, digit_char b]) # g, r) # t"
  by (auto simp: rx_m_def dsimps)

lemma match_d:
  "(a = 3 \<and> b \<le> 1) \<or> ((a = 1 \<or> a = 2) \<and> b < 10) \<or> (a = 0 \<and> 1 \<le> b \<and> b < 10) \<Longrightarrow>
   \<exists>t. rmatch rx_d (g, digit_char a # digit_char b # r)
       = ((CHR ''d'', [digit_char a, digit_char b]) # g, r) # t"
  by (auto simp: rx_d_def dsimps)

lemma match_H:
  "(a = 2 \<and> b \<le> 3) \<or> (a \<le> 1 \<and> b < 10) \<Longrightarrow>
   \<exists>t. rmatch rx_H (g, digit_char a # digit_char b # r)
       = ((CHR ''H'', [digit_char a, digit_char b]) # g, r) # t"
  by (auto simp: rx_H_def dsimps)

lemma match_M:
  "a \<le> 5 \<Longrightarrow> b < 10 \<Longrightarrow>
   \<exists>t. rmatch rx_M (g, digit_char a # digit_char b # r)
       = ((CHR ''M'', [digit_char a, digit_char b]) # g, r) # t"
  by (auto simp: rx_M_def dsimps)

lemma match_S:
  "a \<le> 5 \<Longrightarrow> b < 10 \<Longrightarrow>
   \<exists>t. rmatch rx_S (g, digit_char a # digit_char b # r)
       = ((CHR ''S'', [digit_char a, digit_char b]) # g, r) # t"
  by (auto simp: rx_S_def dsimps)

lemma match_Ws1:
  "a < 10 \<Longrightarrow> rmatch Ws1 (g, CHR '' '' # digit_char a # r) = [(g, digit_char a # r)]"
  by (simp add: is_space_def digit_char_eq)

lemma match_Lit: "rmatch (Lit c) (g, c # r) = [(g, r)]"
  by simp

lemma seq_step:
  "\<exists>t. rmatch p st = st1 # t \<Longrightarrow> \<exists>t. rmatch_seq ps st1 = st2 # t
   \<Longrightarrow> \<exists>t. rmatch_seq (p # ps) st = st2 # t"
  by auto


lemma str_nat_lt10: "k < 10 \<Longrightarrow> str_nat k = [digit_char k]"
  by (subst str_nat.simps) simp

lemma str_nat_ge10: "10 \<le> k \<Longrightarrow> str_nat k = str_nat (k div 10) @ [digit_char (k mod 10)]"
  by (subst str_nat.simps) simp

lemma zfill_1: "k < 10 \<Longrightarrow> zfill 1 k = [digit_char k]"
  by (simp add: zfill_def str_nat_lt10)

lemma zfill_Suc:
  "0 < w \<Longrightarrow> zfill (Suc w) k = zfill w (k div 10) @ [digit_char (k mod 10)]"
proof (cases "k < 10")
  case True
  assume w: "0 < w"
  obtain v where v: "w = Suc v" using w by (cases w) auto
  have "replicate v (CHR ''0'') @ [CHR ''0''] = replicate (Suc v) (CHR ''0'')"
    by (simp add: replicate_append_same)
  then show ?thesis using True v
    by (simp add: zfill_def str_nat_lt10 digit_char_0)
next
  case False
  then show ?thesis
    by (simp add: zfill_def str_nat_ge10 Suc_diff_le)
qed

lemma zfill_2:
  "k < 100 \<Longrightarrow> zfill 2 k = [digit_char (k div 10), digit_char (k mod 10)]"
proof -
  assume k: "k < 100"
  have a: "zfill (Suc (Suc 0)) k = zfill (Suc 0) (k div 10) @ [digit_char (k mod 10)]"
    by (rule zfill_Suc) simp
  have "k div 10 < 10" using k by simp
  then have b: "zfill (Suc 0) (k div 10) = [digit_char (k div 10)]"
    using zfill_1 [of "k div 10"] by simp
  have "zfill 2 k = zfill (Suc (Suc 0)) k" by (simp only: numeral_2_eq_2)
  then show ?thesis using a b by simp
qed

lemma zfill_3:
  "k < 1000 \<Longrightarrow>
   zfill 3 k = [digit_char (k div 100), digit_char (k div 10 mod 10), digit_char (k mod 10)]"
proof -
  assume k: "k < 1000"
  have a: "zfill (Suc 2) k = zfill 2 (k div 10) @ [digit_char (k mod 10)]"
    by (rule zfill_Suc) simp
  have "k div 10 < 100" using k by simp
  then have b: "zfill 2 (k div 10)
      = [digit_char (k div 10 div 10), digit_char (k div 10 mod 10)]"
    by (rule zfill_2)
  have c: "k div 10 div 10 = k div 100" by (simp add: div_mult2_eq [symmetric])
  have "zfill 3 k = zfill (Suc 2) k" by simp
  then show ?thesis using a b c by simp
qed

lemma zfill_4:
  "k < 10000 \<Longrightarrow>
   zfill 4 k = [digit_char (k div 1000), digit_char (k div 100 mod 10),
                digit_char (k div 10 mod 10), digit_char (k mod 10)]"
proof -
  assume k: "k < 10000"
  have a: "zfill (Suc 3) k = zfill 3 (k div 10) @ [digit_char (k mod 10)]"
    by (rule zfill_Suc) simp
  have "k div 10 < 1000" using k by simp
  then have b: "zfill 3 (k div 10)
      = [digit_char (k div 10 div 100), digit_char (k div 10 div 10 mod 10),
         digit_char (k div 10 mod 10)]"
    by (rule zfill_3)
  have c: "k div 10 div 100 = k div 1000" "k div 10 div 10 = k div 100"
    by (simp_all add: div_mult2_eq [symmetric])
  have "zfill 4 k = zfill (Suc 3) k" by simp
  then show ?thesis using a b c by simp
qed

lemma str_nat_4:
  "1000 \<le> k \<Longrightarrow> k < 10000 \<Longrightarrow> str_nat k = zfill 4 k"
proof -
  assume k: "1000 \<le> k" "k < 10000"
  have a: "str_nat k = str_nat (k div 10) @ [digit_char (k mod 10)]"
    by (rule str_nat_ge10) (use k in simp)
  have b: "str_nat (k div 10) = str_nat (k div 10 div 10) @ [digit_char (k div 10 mod 10)]"
    by (rule str_nat_ge10) (use k in simp)
  have c: "str_nat (k div 10 div 10)
     = str_nat (k div 10 div 10 div 10) @ [digit_char (k div 10 div 10 mod 10)]"
    by (rule str_nat_ge10) (use k in simp)
  have d: "str_nat (k div 10 div 10 div 10) = [digit_char (k div 10 div 10 div 10)]"
    by (rule str_nat_lt10) (use k in simp)
  have e: "k div 10 div 10 div 10 = k div 1000" "k div 10 div 10 = k div 100"
    by (simp_all add: div_mult2_eq [symmetric])
  have "str_nat k = [digit_char (k div 10 div 10 div 10), digit_char (k div 10 div 10 mod 10),
                     digit_char (k div 10 mod 10), digit_char (k mod 10)]"
    by (simp only: a b c d append.simps)
  then show ?thesis using k e by (simp add: zfill_4)
qed

lemma py_int_2:
  "a < 10 \<Longrightarrow> b < 10 \<Longrightarrow> py_int [digit_char a, digit_char b] = 10 * a + b"
  by (simp add: py_int_def not_ascii_space_digit is_digit_digit_char digit_val_digit_char)

lemma py_int_4:
  "a < 10 \<Longrightarrow> b < 10 \<Longrightarrow> c < 10 \<Longrightarrow> d < 10 \<Longrightarrow>
   py_int [digit_char a, digit_char b, digit_char c, digit_char d]
   = 1000 * a + 100 * b + 10 * c + d"
  by (simp add: py_int_def not_ascii_space_digit is_digit_digit_char digit_val_digit_char)

lemma py_int_digits:
  "\<forall>c\<in>set ds. is_digit c \<Longrightarrow> py_int ds = foldl (\<lambda>a c. 10 * a + digit_val c) 0 ds"
  by (cases ds) (simp_all add: py_int_def not_ascii_space_digit)

lemma py_int_snoc:
  "\<forall>x\<in>set ds. is_digit x \<Longrightarrow> is_digit c \<Longrightarrow> py_int (ds @ [c]) = 10 * py_int ds + digit_val c"
proof -
  assume ds: "\<forall>x\<in>set ds. is_digit x" and c: "is_digit c"
  then have "\<forall>x\<in>set (ds @ [c]). is_digit x" by simp
  then have "py_int (ds @ [c]) = foldl (\<lambda>a c. 10 * a + digit_val c) 0 (ds @ [c])"
    by (rule py_int_digits)
  then show ?thesis using py_int_digits [OF ds] by simp
qed

lemma zfill_py_int:
  "\<forall>c\<in>set ds. is_digit c \<Longrightarrow> ds \<noteq> [] \<Longrightarrow> zfill (length ds) (py_int ds) = ds"
proof (induction ds rule: rev_induct)
  case Nil
  then show ?case by simp
next
  case (snoc c ds)
  have c: "is_digit c" and ds: "\<forall>x\<in>set ds. is_digit x" using snoc.prems by auto
  have v: "digit_val c < 10" using c by (rule digit_val_less)
  have p: "py_int (ds @ [c]) = 10 * py_int ds + digit_val c"
    using ds c by (rule py_int_snoc)
  show ?case
  proof (cases "ds = []")
    case True
    have "py_int [c] = digit_val c" using py_int_snoc [of "[]" c] c by (simp add: py_int_def)
    then show ?thesis using True v zfill_1 [of "digit_val c"] c
      by (simp add: digit_char_digit_val)
  next
    case False
    then have ih: "zfill (length ds) (py_int ds) = ds" using snoc.IH ds by simp
    have w: "0 < length ds" using False by simp
    have "zfill (Suc (length ds)) (10 * py_int ds + digit_val c)
        = zfill (length ds) ((10 * py_int ds + digit_val c) div 10)
          @ [digit_char ((10 * py_int ds + digit_val c) mod 10)]"
      using w by (rule zfill_Suc)
    moreover have "(10 * py_int ds + digit_val c) div 10 = py_int ds" using v by simp
    moreover have "(10 * py_int ds + digit_val c) mod 10 = digit_val c" using v by simp
    ultimately show ?thesis using ih c by (simp add: p digit_char_digit_val)
  qed
qed

lemma py_int_zfill_2: "k < 100 \<Longrightarrow> py_int (zfill 2 k) = k"
  by (simp add: zfill_2 py_int_2)

lemma py_int_zfill_4: "k < 10000 \<Longrightarrow> py_int (zfill 4 k) = k"
proof -
  assume k: "k < 10000"
  define q1 where "q1 = k div 10"
  define q2 where "q2 = q1 div 10"
  define q3 where "q3 = q2 div 10"
  have a: "k = 10 * q1 + k mod 10" by (simp add: q1_def)
  have b: "q1 = 10 * q2 + q1 mod 10" by (simp add: q2_def)
  have c: "q2 = 10 * q3 + q2 mod 10" by (simp add: q3_def)
  have d: "q2 = k div 100" "q3 = k div 1000"
    by (simp_all add: q1_def q2_def q3_def div_mult2_eq [symmetric])
  have "1000 * q3 + 100 * (q2 mod 10) + 10 * (q1 mod 10) + k mod 10 = k"
    using a b c by linarith
  then have "1000 * (k div 1000) + 100 * (k div 100 mod 10) + 10 * (k div 10 mod 10) + k mod 10 = k"
    using d by (simp add: q1_def)
  then show ?thesis using k by (simp add: zfill_4 py_int_4)
qed

lemma match_Y':
  "y < 10000 \<Longrightarrow> \<exists>t. rmatch rx_Y (g, zfill 4 y @ r) = ((CHR ''Y'', zfill 4 y) # g, r) # t"
  by (simp add: zfill_4 match_Y)

lemma match_m':
  "1 \<le> m \<Longrightarrow> m \<le> 12 \<Longrightarrow>
   \<exists>t. rmatch rx_m (g, zfill 2 m @ r) = ((CHR ''m'', zfill 2 m) # g, r) # t"
proof -
  assume m: "1 \<le> m" "m \<le> 12"
  then have "(m div 10 = 1 \<and> m mod 10 \<le> 2) \<or> (m div 10 = 0 \<and> 1 \<le> m mod 10 \<and> m mod 10 < 10)"
    by presburger
  from match_m [OF this] show ?thesis using m by (simp add: zfill_2)
qed

lemma match_d':
  "1 \<le> d \<Longrightarrow> d \<le> 31 \<Longrightarrow>
   \<exists>t. rmatch rx_d (g, zfill 2 d @ r) = ((CHR ''d'', zfill 2 d) # g, r) # t"
proof -
  assume d: "1 \<le> d" "d \<le> 31"
  then have "(d div 10 = 3 \<and> d mod 10 \<le> 1) \<or> ((d div 10 = 1 \<or> d div 10 = 2) \<and> d mod 10 < 10)
      \<or> (d div 10 = 0 \<and> 1 \<le> d mod 10 \<and> d mod 10 < 10)"
    by presburger
  from match_d [OF this] show ?thesis using d by (simp add: zfill_2)
qed

lemma match_H':
  "H \<le> 23 \<Longrightarrow> \<exists>t. rmatch rx_H (g, zfill 2 H @ r) = ((CHR ''H'', zfill 2 H) # g, r) # t"
proof -
  assume H: "H \<le> 23"
  then have "(H div 10 = 2 \<and> H mod 10 \<le> 3) \<or> (H div 10 \<le> 1 \<and> H mod 10 < 10)"
    by presburger
  from match_H [OF this] show ?thesis using H by (simp add: zfill_2)
qed

lemma match_M':
  "M \<le> 59 \<Longrightarrow> \<exists>t. rmatch rx_M (g, zfill 2 M @ r) = ((CHR ''M'', zfill 2 M) # g, r) # t"
proof -
  assume M: "M \<le> 59"
  then have "M div 10 \<le> 5" "M mod 10 < 10" by presburger+
  from match_M [OF this] show ?thesis using M by (simp add: zfill_2)
qed

lemma match_S':
  "S \<le> 59 \<Longrightarrow> \<exists>t. rmatch rx_S (g, zfill 2 S @ r) = ((CHR ''S'', zfill 2 S) # g, r) # t"
proof -
  assume S: "S \<le> 59"
  then have "S div 10 \<le> 5" "S mod 10 < 10" by presburger+
  from match_S [OF this] show ?thesis using S by (simp add: zfill_2)
qed

lemma match_Ws1':
  "H < 100 \<Longrightarrow> \<exists>t. rmatch Ws1 (g, CHR '' '' # zfill 2 H @ r) = (g, zfill 2 H @ r) # t"
proof -
  assume "H < 100"
  then have "H div 10 < 10" by simp
  from match_Ws1 [OF this] show ?thesis using \<open>H < 100\<close> by (simp add: zfill_2)
qed

lemma match_Lit': "\<exists>t. rmatch (Lit c) (g, c # r) = (g, r) # t"
  by simp

lemma seq_done: "\<exists>t. rmatch_seq [] st = st # t"
  by simp

lemma whole_match:
  assumes "y < 10000" "1 \<le> m" "m \<le> 12" "1 \<le> d" "d \<le> 31" "H \<le> 23" "M \<le> 59" "S \<le> 59"
  shows "\<exists>t. rmatch_seq whole_second_pattern (g, stamp_text y m d H M S @ r)
      = ((CHR ''S'', zfill 2 S) # (CHR ''M'', zfill 2 M) # (CHR ''H'', zfill 2 H)
          # (CHR ''d'', zfill 2 d) # (CHR ''m'', zfill 2 m) # (CHR ''Y'', zfill 4 y) # g, r) # t"
proof -
  have H: "H < 100" using assms(6) by simp
  show ?thesis
    unfolding whole_second_pattern_def stamp_text_def
    apply (simp only: append_assoc append_Cons append_Nil)
    apply (rule seq_step, rule match_Y', rule assms)
    apply (rule seq_step, rule match_m', rule assms, rule assms)
    apply (rule seq_step, rule match_d', rule assms, rule assms)
    apply (rule seq_step, rule match_Ws1', rule H)
    apply (rule seq_step, rule match_H', rule assms)
    apply (rule seq_step, rule match_Lit')
    apply (rule seq_step, rule match_M', rule assms)
    apply (rule seq_step, rule match_Lit')
    apply (rule seq_step, rule match_S', rule assms)
    apply (rule seq_done)
    done
qed

lemma concat_map_concat:
  "concat (map f (concat xss)) = concat (map (\<lambda>xs. concat (map f xs)) xss)"
  by (induction xss) auto

lemma rmatch_seq_append:
  "rmatch_seq (a @ b) st = concat (map (rmatch_seq b) (rmatch_seq a st))"
proof (induction a arbitrary: st)
  case Nil
  then show ?case by simp
next
  case (Cons p ps)
  have "rmatch_seq (ps @ b) = (\<lambda>xs. concat (map (rmatch_seq b) xs)) \<circ> rmatch_seq ps"
    by (rule ext) (simp add: Cons.IH)
  then show ?case by (simp add: concat_map_concat)
qed

lemma seq_append_head:
  "\<exists>t. rmatch_seq a st = st1 # t \<Longrightarrow> \<exists>t. rmatch_seq b st1 = st2 # t
   \<Longrightarrow> \<exists>t. rmatch_seq (a @ b) st = st2 # t"
  by (auto simp: rmatch_seq_append)

lemma takeWhile_digits: "\<forall>c\<in>set fs. is_digit c \<Longrightarrow> takeWhile is_digit fs = fs"
  by (induction fs) auto

lemma rev_upt_head: "Suc 0 \<le> n \<Longrightarrow> rev [Suc 0 ..< Suc n] = n # rev [Suc 0 ..< n]"
  by simp

lemma match_f:
  assumes "\<forall>c\<in>set fs. is_digit c" "1 \<le> length fs" "length fs \<le> 6"
  shows "\<exists>t. rmatch_seq [Lit (CHR ''.''), rx_f] (g, CHR ''.'' # fs) = ((CHR ''f'', fs) # g, []) # t"
proof -
  have m: "min 6 (length fs) = length fs" using assms(3) by simp
  have "\<exists>t. rmatch rx_f (g, fs) = ((CHR ''f'', fs) # g, []) # t"
    using assms(2)
    by (simp add: rx_f_def takeWhile_digits [OF assms(1)] m rev_upt_head del: upt_Suc)
  then show ?thesis by auto
qed

lemma days_in_month_le: "days_in_month y m \<le> 31"
  by (simp add: days_in_month_def)

lemma py_int_bound: "\<forall>c\<in>set ds. is_digit c \<Longrightarrow> py_int ds < 10 ^ length ds"
proof (induction ds rule: rev_induct)
  case Nil
  then show ?case by (simp add: py_int_def)
next
  case (snoc c ds)
  have c: "is_digit c" and ds: "\<forall>x\<in>set ds. is_digit x" using snoc.prems by auto
  have "py_int (ds @ [c]) = 10 * py_int ds + digit_val c" using ds c by (rule py_int_snoc)
  moreover have "digit_val c < 10" using c by (rule digit_val_less)
  moreover have "py_int ds < 10 ^ length ds" using snoc.IH ds by simp
  ultimately show ?case by simp
qed

lemma rmatch_set: "st' \<in> set (rmatch p st) \<Longrightarrow> set (snd st') \<subseteq> set (snd st)"
proof (induction p arbitrary: st st')
  case Dig
  then show ?case by (cases st) (auto split: list.splits if_splits)
next
  case (Rng a b)
  then show ?case by (cases st) (auto split: list.splits if_splits)
next
  case (Lit a)
  then show ?case by (cases st) (auto split: list.splits if_splits)
next
  case Ws1
  then show ?case by (cases st) (auto dest: in_set_dropD)
next
  case Dig1to6
  then show ?case by (cases st) (auto dest: in_set_dropD)
next
  case (Cat p q)
  from Cat.prems obtain st1 where 1: "st1 \<in> set (rmatch p st)" and 2: "st' \<in> set (rmatch q st1)"
    by auto
  from Cat.IH(1) [OF 1] Cat.IH(2) [OF 2] show ?case by blast
next
  case (Alt p q)
  from Alt.prems have "st' \<in> set (rmatch p st) \<or> st' \<in> set (rmatch q st)" by simp
  then show ?case using Alt.IH by blast
next
  case (Grp k p)
  obtain g s where st: "st = (g, s)" by (cases st)
  from Grp.prems obtain st1 where 1: "st1 \<in> set (rmatch p (g, s))" and 2: "snd st' = snd st1"
    by (auto simp: st)
  from Grp.IH [OF 1] 2 show ?case by (simp add: st)
qed

lemma rmatch_seq_set: "st' \<in> set (rmatch_seq ps st) \<Longrightarrow> set (snd st') \<subseteq> set (snd st)"
proof (induction ps arbitrary: st)
  case Nil
  then show ?case by simp
next
  case (Cons p ps)
  from Cons.prems obtain st1 where 1: "st1 \<in> set (rmatch p st)"
    and 2: "st' \<in> set (rmatch_seq ps st1)" by auto
  from rmatch_set [OF 1] Cons.IH [OF 2] show ?case by blast
qed

lemma lit_fail: "c \<notin> set (snd st) \<Longrightarrow> rmatch_seq (Lit c # ps) st = []"
  by (cases st; cases "snd st") auto

lemma frac_no_dot:
  assumes "CHR ''.'' \<notin> set s"
  shows "rmatch_seq fractional_pattern (g, s) = []"
proof -
  have "rmatch_seq [Lit (CHR ''.''), rx_f] st1 = []"
    if "st1 \<in> set (rmatch_seq whole_second_pattern (g, s))" for st1
  proof -
    from rmatch_seq_set [OF that] assms have "CHR ''.'' \<notin> set (snd st1)" by auto
    then show ?thesis by (rule lit_fail)
  qed
  then show ?thesis
    unfolding fractional_pattern_def rmatch_seq_append by simp
qed

lemma digit_not_dot: "k < 10 \<Longrightarrow> CHR ''.'' \<noteq> digit_char k"
  using digit_char_eq [of k "CHR ''.''"] by auto

lemma stamp_no_dot:
  assumes "y < 10000" "m < 100" "d < 100" "H < 100" "M < 100" "S < 100"
  shows "CHR ''.'' \<notin> set (stamp_text y m d H M S)"
  using assms by (simp add: stamp_text_def zfill_2 zfill_4 digit_not_dot)

lemma valid_fields_ranges:
  assumes "valid_fields y m d H M S"
  shows "y < 10000" "1 \<le> m" "m \<le> 12" "1 \<le> d" "d \<le> 31" "H \<le> 23" "M \<le> 59" "S \<le> 59"
  using assms days_in_month_le [of y m] by (auto simp: valid_fields_def)

lemma strptime_whole:
  assumes "valid_fields y m d H M S"
  shows "strptime (stamp_text y m d H M S) whole_second_pattern
    = Inr \<lparr>year = y, month = m, day = d, hour = H, minute = M, second = S, microsecond = 0\<rparr>"
proof -
  note r = valid_fields_ranges [OF assms]
  from whole_match [OF r, of "[]" "[]"] obtain t where
    "rmatch_seq whole_second_pattern ([], stamp_text y m d H M S)
      = ([(CHR ''S'', zfill 2 S), (CHR ''M'', zfill 2 M), (CHR ''H'', zfill 2 H),
          (CHR ''d'', zfill 2 d), (CHR ''m'', zfill 2 m), (CHR ''Y'', zfill 4 y)], []) # t"
    by auto
  then show ?thesis using assms r
    by (simp add: strptime_def group_int_def group_fraction_def py_int_zfill_2 py_int_zfill_4
        valid_datetime_def valid_fields_def)
qed

lemma strptime_frac:
  assumes "valid_fields y m d H M S" "\<forall>c\<in>set fs. is_digit c" "1 \<le> length fs" "length fs \<le> 6"
  shows "strptime (stamp_text y m d H M S @ CHR ''.'' # fs) fractional_pattern
    = Inr \<lparr>year = y, month = m, day = d, hour = H, minute = M, second = S,
           microsecond = py_int (fs @ replicate (6 - length fs) (CHR ''0''))\<rparr>"
proof -
  note r = valid_fields_ranges [OF assms(1)]
  let ?f6 = "fs @ replicate (6 - length fs) (CHR ''0'')"
  have z: "is_digit (CHR ''0'')" by (simp add: is_digit_def)
  have "\<forall>c\<in>set ?f6. is_digit c" using assms(2) z by auto
  from py_int_bound [OF this] have "py_int ?f6 < 10 ^ 6" using assms(4) by simp
  then have us: "py_int ?f6 \<le> 999999" by simp
  from seq_append_head [OF whole_match [OF r] match_f [OF assms(2,3,4)], of "[]"]
  obtain t where
    "rmatch_seq fractional_pattern ([], stamp_text y m d H M S @ CHR ''.'' # fs)
      = ([(CHR ''f'', fs), (CHR ''S'', zfill 2 S), (CHR ''M'', zfill 2 M), (CHR ''H'', zfill 2 H),
          (CHR ''d'', zfill 2 d), (CHR ''m'', zfill 2 m), (CHR ''Y'', zfill 4 y)], []) # t"
    by (auto simp: fractional_pattern_def)
  then show ?thesis using assms(1) r us
    by (simp add: strptime_def group_int_def group_fraction_def py_int_zfill_2 py_int_zfill_4
        valid_datetime_def valid_fields_def)
qed

lemma strptime_frac_whole:
  assumes "valid_fields y m d H M S"
  shows "strptime (stamp_text y m d H M S) fractional_pattern = Inl ValueError"
proof -
  note r = valid_fields_ranges [OF assms]
  have "CHR ''.'' \<notin> set (stamp_text y m d H M S)"
    by (rule stamp_no_dot) (use r in simp_all)
  from frac_no_dot [OF this] show ?thesis by (simp add: strptime_def)
qed

lemma take_drop_last3: "length f = 6 \<Longrightarrow> take (length (A @ f) - 3) (A @ f) = A @ take 3 f"
  by simp

lemma format_result:
  assumes "1000 \<le> y" "valid_fields y m d H M S" "\<forall>c\<in>set f. is_digit c" "length f = 6"
  shows "format_datetime_with_ms
      \<lparr>year = y, month = m, day = d, hour = H, minute = M, second = S, microsecond = py_int f\<rparr>
    = iso_text y m d H M S @ ''.'' @ take 3 f"
proof -
  note r = valid_fields_ranges [OF assms(2)]
  have y: "str_nat y = zfill 4 y" using assms(1) r(1) by (rule str_nat_4)
  have "f \<noteq> []" using assms(4) by auto
  from zfill_py_int [OF assms(3) this] have f: "zfill 6 (py_int f) = f" using assms(4) by simp
  have s: "strftime_us \<lparr>year = y, month = m, day = d, hour = H, minute = M, second = S,
      microsecond = py_int f\<rparr> = (iso_text y m d H M S @ ''.'') @ f"
    by (simp add: strftime_us_def iso_text_def y f)
  have k: "take (length ((iso_text y m d H M S @ ''.'') @ f) - 3)
      ((iso_text y m d H M S @ ''.'') @ f) = (iso_text y m d H M S @ ''.'') @ take 3 f"
    by (rule take_drop_last3 [OF assms(4)])
  show ?thesis
    unfolding format_datetime_with_ms_def Let_def s k by (simp only: append_assoc)
qed

text \<open>
  What a match leaves is a suffix of the text, and the last group of each format takes
  a bounded number of characters. So a text that ends in more digits than the last
  group can take is matched by neither format up to its end.
\<close>

lemma rmatch_drop: "st' \<in> set (rmatch p st) \<Longrightarrow> \<exists>k. snd st' = drop k (snd st)"
proof (induction p arbitrary: st st')
  case Dig
  then show ?case by (cases st) (auto split: list.splits if_splits intro: exI [of _ 1])
next
  case (Rng a b)
  then show ?case by (cases st) (auto split: list.splits if_splits intro: exI [of _ 1])
next
  case (Lit a)
  then show ?case by (cases st) (auto split: list.splits if_splits intro: exI [of _ 1])
next
  case Ws1
  then show ?case by (cases st) auto
next
  case Dig1to6
  then show ?case by (cases st) auto
next
  case (Cat p q)
  from Cat.prems obtain st1 where 1: "st1 \<in> set (rmatch p st)" and 2: "st' \<in> set (rmatch q st1)"
    by auto
  from Cat.IH(1) [OF 1] obtain k1 where k1: "snd st1 = drop k1 (snd st)" by blast
  from Cat.IH(2) [OF 2] obtain k2 where k2: "snd st' = drop k2 (snd st1)" by blast
  have "snd st' = drop (k2 + k1) (snd st)" using k1 k2 by simp
  then show ?case by blast
next
  case (Alt p q)
  from Alt.prems have "st' \<in> set (rmatch p st) \<or> st' \<in> set (rmatch q st)" by simp
  then show ?case using Alt.IH by blast
next
  case (Grp k p)
  obtain g s where st: "st = (g, s)" by (cases st)
  from Grp.prems obtain st1 where 1: "st1 \<in> set (rmatch p (g, s))" and 2: "snd st' = snd st1"
    by (auto simp: st)
  from Grp.IH [OF 1] 2 show ?case by (simp add: st)
qed

lemma rmatch_seq_drop: "st' \<in> set (rmatch_seq ps st) \<Longrightarrow> \<exists>k. snd st' = drop k (snd st)"
proof (induction ps arbitrary: st)
  case Nil
  then have "snd st' = drop 0 (snd st)" by simp
  then show ?case by blast
next
  case (Cons p ps)
  from Cons.prems obtain st1 where 1: "st1 \<in> set (rmatch p st)"
    and 2: "st' \<in> set (rmatch_seq ps st1)" by auto
  from rmatch_drop [OF 1] obtain k1 where k1: "snd st1 = drop k1 (snd st)" by blast
  from Cons.IH [OF 2] obtain k2 where k2: "snd st' = drop k2 (snd st1)" by blast
  have "snd st' = drop (k2 + k1) (snd st)" using k1 k2 by simp
  then show ?case by blast
qed

lemma rx_S_takes: "st' \<in> set (rmatch rx_S st) \<Longrightarrow> length (snd st) \<le> length (snd st') + 2"
  by (cases st) (auto simp: rx_S_def split: list.splits if_splits)

lemma rx_f_takes: "st' \<in> set (rmatch rx_f st) \<Longrightarrow> length (snd st) \<le> length (snd st') + 6"
  by (cases st) (auto simp: rx_f_def)

lemma short_suffix:
  assumes "u = drop k (s @ f)" "length u \<le> length f"
  shows "set u \<subseteq> set f"
proof -
  have "length s \<le> k \<or> u = []" using assms by auto
  then show ?thesis
  proof
    assume "length s \<le> k"
    then have "u = drop (k - length s) f" using assms(1) by simp
    then show ?thesis by (auto dest: in_set_dropD)
  next
    assume "u = []"
    then show ?thesis by simp
  qed
qed

lemma no_total_match:
  assumes f: "\<forall>c\<in>set f. is_digit c" and n: "n < length f" and c: "\<not> is_digit c0"
    and q: "\<And>st st'. st' \<in> set (rmatch q st) \<Longrightarrow> length (snd st) \<le> length (snd st') + n"
    and m: "st' \<in> set (rmatch_seq (pre @ [Lit c0, q]) (g, s @ f))"
  shows "snd st' \<noteq> []"
proof
  assume e: "snd st' = []"
  from m obtain st1 where 1: "st1 \<in> set (rmatch_seq pre (g, s @ f))"
    and 2: "st' \<in> set (rmatch_seq [Lit c0, q] st1)"
    by (auto simp: rmatch_seq_append)
  obtain g1 u where st1: "st1 = (g1, u)" by (cases st1)
  from 2 obtain v where u: "u = c0 # v" and 3: "st' \<in> set (rmatch q (g1, v))"
    by (auto simp: st1 split: list.splits if_splits)
  from q [OF 3] e have "length v \<le> n" by simp
  then have lu: "length u \<le> length f" using n u by simp
  from rmatch_seq_drop [OF 1] obtain k where k: "u = drop k (s @ f)" by (auto simp: st1)
  from short_suffix [OF k lu] u have "c0 \<in> set f" by auto
  then show False using f c by blast
qed

lemma strptime_no_total:
  assumes "\<And>st'. st' \<in> set (rmatch_seq p ([], t)) \<Longrightarrow> snd st' \<noteq> []"
  shows "strptime t p = Inl ValueError"
proof (cases "rmatch_seq p ([], t)")
  case Nil
  then show ?thesis by (simp add: strptime_def)
next
  case (Cons a as)
  obtain g rest where a: "a = (g, rest)" by (cases a)
  have "a \<in> set (rmatch_seq p ([], t))" using Cons by simp
  from assms [OF this] have "rest \<noteq> []" by (simp add: a)
  then show ?thesis using Cons a by (simp add: strptime_def)
qed

lemma whole_second_split:
  "whole_second_pattern
     = [rx_Y, rx_m, rx_d, Ws1, rx_H, Lit (CHR '':''), rx_M] @ [Lit (CHR '':''), rx_S]"
  by (simp add: whole_second_pattern_def)

lemma strptime_whole_trailing_digits:
  assumes "\<forall>c\<in>set f. is_digit c" "3 \<le> length f"
  shows "strptime (s @ f) whole_second_pattern = Inl ValueError"
proof (rule strptime_no_total)
  fix st'
  assume m: "st' \<in> set (rmatch_seq whole_second_pattern ([], s @ f))"
  have n: "2 < length f" using assms(2) by simp
  have c: "\<not> is_digit (CHR '':'')" by (simp add: is_digit_def)
  have "st' \<in> set (rmatch_seq
      ([rx_Y, rx_m, rx_d, Ws1, rx_H, Lit (CHR '':''), rx_M] @ [Lit (CHR '':''), rx_S])
      ([], s @ f))"
    using m by (simp only: whole_second_split)
  from no_total_match [where q = rx_S and n = 2, OF assms(1) n c rx_S_takes this]
  show "snd st' \<noteq> []" .
qed

lemma strptime_frac_trailing_digits:
  assumes "\<forall>c\<in>set f. is_digit c" "7 \<le> length f"
  shows "strptime (s @ f) fractional_pattern = Inl ValueError"
proof (rule strptime_no_total)
  fix st'
  assume m: "st' \<in> set (rmatch_seq fractional_pattern ([], s @ f))"
  have n: "6 < length f" using assms(2) by simp
  have c: "\<not> is_digit (CHR ''.'')" by (simp add: is_digit_def)
  have "st' \<in> set (rmatch_seq (whole_second_pattern @ [Lit (CHR ''.''), rx_f]) ([], s @ f))"
    using m by (simp only: fractional_pattern_def)
  from no_total_match [where q = rx_f and n = 6, OF assms(1) n c rx_f_takes this]
  show "snd st' \<noteq> []" .
qed

lemma parse_timestamp_trailing_digits:
  assumes "\<forall>c\<in>set f. is_digit c" "7 \<le> length f"
  shows "parse_timestamp (s @ f) = Inl ValueError"
proof -
  have "3 \<le> length f" using assms(2) by simp
  from strptime_whole_trailing_digits [OF assms(1) this, of s]
    strptime_frac_trailing_digits [OF assms, of s]
  show ?thesis by (simp add: parse_timestamp_def)
qed

lemma digit_chars:
  "digit_char 0 = CHR ''0''" "digit_char 1 = CHR ''1''" "digit_char 2 = CHR ''2''"
  "digit_char 3 = CHR ''3''" "digit_char 4 = CHR ''4''" "digit_char 5 = CHR ''5''"
  "digit_char 6 = CHR ''6''" "digit_char 7 = CHR ''7''" "digit_char 8 = CHR ''8''"
  "digit_char 9 = CHR ''9''" "digit_char (Suc 0) = CHR ''1''"
  by code_simp+

lemma stamp_example: "stamp_text 2024 8 (Suc 0) 0 0 0 = ''20240801 00:00:00''"
  by (simp add: stamp_text_def zfill_4 zfill_2 digit_chars)


lemma valid_example: "valid_fields 2024 8 1 0 0 0"
  by (simp add: valid_fields_def days_in_month_def)

lemma take3_pad:
  "length fs \<le> 6 \<Longrightarrow>
   take 3 (fs @ replicate (6 - length fs) c) = take 3 (fs @ [c, c, c])"
proof -
  assume "length fs \<le> 6"
  have r: "replicate 3 c = [c, c, c]" by (simp add: numeral_3_eq_3)
  consider "length fs = 0" | "length fs = 1" | "length fs = 2" | "3 \<le> length fs" by linarith
  then show ?thesis
  proof cases
    case 1
    then show ?thesis using r by simp
  next
    case 2
    have "replicate 2 c = [c, c]" by (simp add: numeral_2_eq_2)
    then show ?thesis using 2 by simp
  next
    case 3
    then show ?thesis by simp
  next
    case 4
    then show ?thesis by simp
  qed
qed

text \<open>
  What \<open>format_datetime_with_ms\<close> returns for a parsed timestamp of year 1000 or later:
  YYYY-MM-DD HH:MM:SS, a dot, and the first three digits of the fraction padded with
  zeros.
\<close>

lemma format_parsed_timestamp:
  assumes "1000 \<le> y" "valid_fields y m d H M S"
    and "\<forall>c\<in>set fs. is_digit c" "length fs \<le> 6"
  shows "map_sum id format_datetime_with_ms
           (parse_timestamp (stamp_text y m d H M S @ (if fs = [] then [] else ''.'' @ fs)))
         = Inr (iso_text y m d H M S @ ''.'' @ take 3 (fs @ ''000''))"
proof (cases "fs = []")
  case True
  have z: "\<forall>c\<in>set ''000000''. is_digit c" by (simp add: is_digit_def)
  have p: "py_int ''000000'' = 0" by (simp add: py_int_def is_ascii_space_def digit_val_def)
  have "parse_timestamp (stamp_text y m d H M S)
      = Inr \<lparr>year = y, month = m, day = d, hour = H, minute = M, second = S,
             microsecond = py_int ''000000''\<rparr>"
    by (simp add: parse_timestamp_def strptime_frac_whole [OF assms(2)]
        strptime_whole [OF assms(2)] p)
  then show ?thesis using True format_result [OF assms(1,2) z] by simp
next
  case False
  let ?f6 = "fs @ replicate (6 - length fs) (CHR ''0'')"
  have l: "1 \<le> length fs" using False by (cases fs) auto
  have z: "is_digit (CHR ''0'')" by (simp add: is_digit_def)
  have d6: "\<forall>c\<in>set ?f6. is_digit c" using assms(3) z by auto
  have l6: "length ?f6 = 6" using assms(4) by simp
  have "parse_timestamp (stamp_text y m d H M S @ CHR ''.'' # fs)
      = Inr \<lparr>year = y, month = m, day = d, hour = H, minute = M, second = S,
             microsecond = py_int ?f6\<rparr>"
    by (simp add: parse_timestamp_def strptime_frac [OF assms(2,3) l assms(4)])
  then show ?thesis
    using False format_result [OF assms(1,2) d6 l6] take3_pad [OF assms(4), of "CHR ''0''"]
    by simp
qed

section \<open>Claims about the Timestamp Normalizer\<close>

text \<open>
  C8 as stated fails: the fractional format takes at most six digits, so a text with a
  seven-digit fraction matches neither format and \<open>parse_timestamp\<close> raises.
\<close>

theorem parse_timestamp_seven_digits:
  "strptime ''20240801 00:00:00.1234567'' fractional_pattern = Inl ValueError
   \<and> strptime ''20240801 00:00:00.1234567'' whole_second_pattern = Inl ValueError
   \<and> parse_timestamp ''20240801 00:00:00.1234567'' = Inl ValueError"
  by code_simp

text \<open>
  C8, amended. For every text YYYYMMDD HH:MM:SS of a calendar date and time of day:
  followed by a dot and one to six digits it is parsed by the fractional format, the
  digits read as a fraction of a second (padded on the right to microseconds); without a
  fraction the fractional format fails and the whole-second format parses it; followed
  by a dot and seven or more digits it matches neither format and \<open>parse_timestamp\<close>
  fails with \<open>ValueError\<close>, as does every text whatsoever that ends in seven or more
  digits. For every text, \<open>parse_timestamp\<close> returns what the fractional format
  returns when that succeeds, else what the whole-second format returns, and fails with
  \<open>ValueError\<close> when neither matches.
\<close>

theorem parse_timestamp_forms:
  assumes "valid_fields y m d H M S"
  shows "((\<forall>c\<in>set fs. is_digit c) \<and> 1 \<le> length fs \<and> length fs \<le> 6 \<longrightarrow>
            strptime (stamp_text y m d H M S @ ''.'' @ fs) fractional_pattern
              = Inr \<lparr>year = y, month = m, day = d, hour = H, minute = M, second = S,
                     microsecond = py_int (fs @ replicate (6 - length fs) (CHR ''0''))\<rparr>
            \<and> parse_timestamp (stamp_text y m d H M S @ ''.'' @ fs)
              = strptime (stamp_text y m d H M S @ ''.'' @ fs) fractional_pattern)
         \<and> strptime (stamp_text y m d H M S) fractional_pattern = Inl ValueError
         \<and> parse_timestamp (stamp_text y m d H M S)
             = Inr \<lparr>year = y, month = m, day = d, hour = H, minute = M, second = S,
                    microsecond = 0\<rparr>
         \<and> ((\<forall>c\<in>set ds. is_digit c) \<and> 7 \<le> length ds \<longrightarrow>
              strptime (stamp_text y m d H M S @ ''.'' @ ds) fractional_pattern = Inl ValueError
              \<and> strptime (stamp_text y m d H M S @ ''.'' @ ds) whole_second_pattern
                  = Inl ValueError
              \<and> parse_timestamp (stamp_text y m d H M S @ ''.'' @ ds) = Inl ValueError
              \<and> parse_timestamp (t @ ds) = Inl ValueError)
         \<and> parse_timestamp s =
             (case strptime s fractional_pattern of
                Inr dt \<Rightarrow> Inr dt
              | Inl _ \<Rightarrow>
                  (case strptime s whole_second_pattern of
                     Inr dt \<Rightarrow> Inr dt
                   | Inl _ \<Rightarrow> Inl ValueError))"
proof -
  let ?stamp = "stamp_text y m d H M S"
  have a: "strptime ?stamp fractional_pattern = Inl ValueError"
    by (rule strptime_frac_whole [OF assms])
  have b: "parse_timestamp ?stamp
      = Inr \<lparr>year = y, month = m, day = d, hour = H, minute = M, second = S, microsecond = 0\<rparr>"
    by (simp add: parse_timestamp_def a strptime_whole [OF assms])
  have c: "strptime (?stamp @ ''.'' @ fs) fractional_pattern
        = Inr \<lparr>year = y, month = m, day = d, hour = H, minute = M, second = S,
               microsecond = py_int (fs @ replicate (6 - length fs) (CHR ''0''))\<rparr>
      \<and> parse_timestamp (?stamp @ ''.'' @ fs)
        = strptime (?stamp @ ''.'' @ fs) fractional_pattern"
    if "\<forall>c\<in>set fs. is_digit c" "1 \<le> length fs" "length fs \<le> 6"
    using strptime_frac [OF assms that] by (simp add: parse_timestamp_def)
  have d: "strptime (?stamp @ ''.'' @ ds) fractional_pattern = Inl ValueError
      \<and> strptime (?stamp @ ''.'' @ ds) whole_second_pattern = Inl ValueError
      \<and> parse_timestamp (?stamp @ ''.'' @ ds) = Inl ValueError
      \<and> parse_timestamp (t @ ds) = Inl ValueError"
    if dg: "\<forall>c\<in>set ds. is_digit c" and l: "7 \<le> length ds"
  proof -
    have l3: "3 \<le> length ds" using l by simp
    have 1: "strptime ((?stamp @ ''.'') @ ds) fractional_pattern = Inl ValueError"
      by (rule strptime_frac_trailing_digits [OF dg l])
    have 2: "strptime ((?stamp @ ''.'') @ ds) whole_second_pattern = Inl ValueError"
      by (rule strptime_whole_trailing_digits [OF dg l3])
    have 3: "parse_timestamp ((?stamp @ ''.'') @ ds) = Inl ValueError"
      by (rule parse_timestamp_trailing_digits [OF dg l])
    have 4: "parse_timestamp (t @ ds) = Inl ValueError"
      by (rule parse_timestamp_trailing_digits [OF dg l])
    show ?thesis using 1 2 3 4 by simp
  qed
  show ?thesis using a b c d parse_timestamp_cases [of s] by blast
qed

theorem parse_timestamp_forms_witness:
  "parse_timestamp ''20240801 00:00:00.110''
     = Inr \<lparr>year = 2024, month = 8, day = 1, hour = 0, minute = 0, second = 0,
            microsecond = py_int ''110000''\<rparr>
   \<and> parse_timestamp ''20240801 00:00:00''
     = Inr \<lparr>year = 2024, month = 8, day = 1, hour = 0, minute = 0, second = 0,
            microsecond = 0\<rparr>
   \<and> parse_timestamp ''20240801 00:00:00.11051234'' = Inl ValueError"
proof -
  have d: "\<forall>c\<in>set ''110''. is_digit c" by (simp add: is_digit_def)
  have e: "\<forall>c\<in>set ''11051234''. is_digit c" by (simp add: is_digit_def)
  have r: "replicate 3 (CHR ''0'') = ''000''" by (simp add: numeral_3_eq_3)
  from parse_timestamp_forms [OF valid_example, of "''110''" "''11051234''" "[]" "[]"] d e r
  show ?thesis by (simp add: stamp_example)
qed

section \<open>Facts about the Store Writer\<close>

lemma insert_ignore_present: "fst r \<in> fst ` set rows \<Longrightarrow> insert_ignore rows r = rows"
  by (simp add: insert_ignore_def)

lemma insert_ignore_keys:
  "fst ` set (insert_ignore rows r) = insert (fst r) (fst ` set rows)"
  by (auto simp: insert_ignore_def)

lemma insert_ignore_distinct:
  "distinct (map fst rows) \<Longrightarrow> distinct (map fst (insert_ignore rows r))"
  by (auto simp: insert_ignore_def)

lemma insert_batch_keys:
  "fst ` set (insert_batch rows vs) = fst ` set rows \<union> fst ` set vs"
  unfolding insert_batch_def
  by (induction vs arbitrary: rows) (auto simp: insert_ignore_keys)

lemma insert_batch_distinct:
  "distinct (map fst rows) \<Longrightarrow> distinct (map fst (insert_batch rows vs))"
  unfolding insert_batch_def
  by (induction vs arbitrary: rows) (auto simp: insert_ignore_distinct)

lemma insert_batch_present:
  "\<forall>v\<in>set vs. fst v \<in> fst ` set rows \<Longrightarrow> insert_batch rows vs = rows"
  unfolding insert_batch_def
  by (induction vs arbitrary: rows) (auto simp: insert_ignore_present)

lemma insert_batch_extends:
  "\<exists>new. insert_batch rows vs = rows @ new
     \<and> (\<forall>x\<in>set new. x \<in> set vs \<and> fst x \<notin> fst ` set rows)"
  unfolding insert_batch_def
proof (induction vs arbitrary: rows)
  case Nil
  then show ?case by simp
next
  case (Cons v vs)
  show ?case
  proof (cases "fst v \<in> fst ` set rows")
    case True
    then have "insert_ignore rows v = rows" by (rule insert_ignore_present)
    with Cons.IH [of rows] show ?thesis by auto
  next
    case False
    then have i: "insert_ignore rows v = rows @ [v]" by (simp add: insert_ignore_def)
    from Cons.IH [of "rows @ [v]"] obtain new where
      n: "foldl insert_ignore (rows @ [v]) vs = (rows @ [v]) @ new"
      and m: "\<forall>x\<in>set new. x \<in> set vs \<and> fst x \<notin> fst ` set (rows @ [v])" by blast
    have "foldl insert_ignore rows (v # vs) = rows @ (v # new)" using i n by simp
    moreover have "\<forall>x\<in>set (v # new). x \<in> set (v # vs) \<and> fst x \<notin> fst ` set rows"
      using False m by auto
    ultimately show ?thesis by blast
  qed
qed

lemma count_key_one:
  "distinct (map fst rows) \<Longrightarrow> k \<in> fst ` set rows
   \<Longrightarrow> length (filter (\<lambda>x. fst x = k) rows) = 1"
proof (induction rows)
  case Nil
  then show ?case by simp
next
  case (Cons a rows)
  show ?case
  proof (cases "fst a = k")
    case True
    then have "k \<notin> fst ` set rows" using Cons.prems(1) by auto
    then have "filter (\<lambda>x. fst x = k) rows = []" by (auto simp: filter_empty_conv)
    then show ?thesis using True by simp
  next
    case False
    then show ?thesis using Cons by auto
  qed
qed

section \<open>Claims about the Store Writer\<close>

text \<open>
  C1. For every target table (its rows keyed by distinct timestamps, as the primary key
  keeps them) and every row: inserting the row raises no error, inserting it a second
  time raises no error and changes nothing, and the table then holds exactly one row
  with that timestamp.
\<close>

theorem insert_twice_idempotent:
  assumes "db tn = Some t" "distinct (map fst (table_rows t))"
  shows "\<exists>db1 t1. executemany db tn [r] = Inr db1
           \<and> executemany db1 tn [r] = Inr db1
           \<and> db1 tn = Some t1
           \<and> length (filter (\<lambda>x. fst x = fst r) (table_rows t1)) = 1
           \<and> insert_batch (insert_batch (table_rows t) [r]) [r] = insert_batch (table_rows t) [r]"
proof -
  let ?rows1 = "insert_batch (table_rows t) [r]"
  let ?t1 = "t\<lparr>table_rows := ?rows1\<rparr>"
  let ?db1 = "db(tn \<mapsto> ?t1)"
  have k: "fst r \<in> fst ` set ?rows1" by (simp add: insert_batch_keys)
  have d: "distinct (map fst ?rows1)" by (rule insert_batch_distinct [OF assms(2)])
  have again: "insert_batch ?rows1 [r] = ?rows1"
    by (rule insert_batch_present) (use k in simp)
  have 1: "executemany db tn [r] = Inr ?db1" by (simp add: executemany_def assms(1))
  have 2: "executemany ?db1 tn [r] = Inr ?db1" by (simp add: executemany_def again)
  have 3: "length (filter (\<lambda>x. fst x = fst r) (table_rows ?t1)) = 1"
    using count_key_one [OF d k] by simp
  show ?thesis using 1 2 3 again by auto
qed

theorem insert_twice_idempotent_witness:
  "\<exists>db1 t1. executemany [''EURUSD_2024_08'' \<mapsto> \<lparr>table_schema = tick_schema, table_rows = []\<rparr>]
        ''EURUSD_2024_08'' [(tick_instant,''1.08423'', ''1.08431'')] = Inr db1
     \<and> executemany db1 ''EURUSD_2024_08'' [(tick_instant,''1.08423'', ''1.08431'')] = Inr db1
     \<and> db1 ''EURUSD_2024_08'' = Some t1
     \<and> length (filter (\<lambda>x. fst x = tick_instant) (table_rows t1)) = 1"
  using insert_twice_idempotent
    [of "[''EURUSD_2024_08'' \<mapsto> \<lparr>table_schema = tick_schema, table_rows = []\<rparr>]"
        "''EURUSD_2024_08''" "\<lparr>table_schema = tick_schema, table_rows = []\<rparr>"
        "(tick_instant,''1.08423'', ''1.08431'')"]
  by simp blast

text \<open>
  C7. For every target table, \<open>insert_batch\<close> only appends: the rows present before the
  call stay as they are, in place, and each appended row comes from the batch and has a
  timestamp the table did not hold. So a row whose timestamp already exists keeps its
  bid and ask, and the statement touches no other table and not the schema.
\<close>

theorem insert_batch_frame:
  assumes "db tn = Some t"
  shows "\<exists>db' new. executemany db tn vs = Inr db'
           \<and> db' tn = Some (t\<lparr>table_rows := table_rows t @ new\<rparr>)
           \<and> (\<forall>x\<in>set new. x \<in> set vs \<and> fst x \<notin> fst ` set (table_rows t))
           \<and> (\<forall>x\<in>set (table_rows t). x \<in> set (table_rows t @ new))
           \<and> (\<forall>k\<in>fst ` set (table_rows t).
                 map_of (table_rows t @ new) k = map_of (table_rows t) k)
           \<and> (\<forall>tn'. tn' \<noteq> tn \<longrightarrow> db' tn' = db tn')"
proof -
  from insert_batch_extends [of "table_rows t" vs] obtain new where
    n: "insert_batch (table_rows t) vs = table_rows t @ new"
    and m: "\<forall>x\<in>set new. x \<in> set vs \<and> fst x \<notin> fst ` set (table_rows t)" by blast
  let ?db' = "db(tn \<mapsto> t\<lparr>table_rows := table_rows t @ new\<rparr>)"
  have 1: "executemany db tn vs = Inr ?db'" by (simp add: executemany_def assms n)
  have 2: "\<forall>k\<in>fst ` set (table_rows t).
      map_of (table_rows t @ new) k = map_of (table_rows t) k"
    by (auto simp: map_add_def map_of_eq_None_iff split: option.splits)
  show ?thesis using 1 2 m by auto
qed

theorem insert_batch_frame_witness:
  "\<exists>db' new. executemany
        [''EURUSD_2024_08'' \<mapsto> \<lparr>table_schema = tick_schema, table_rows = [(tick_instant,''1.0'', ''1.1'')]\<rparr>]
        ''EURUSD_2024_08'' [(tick_instant,''2.0'', ''2.1'')] = Inr db'
     \<and> db' ''EURUSD_2024_08''
        = Some \<lparr>table_schema = tick_schema, table_rows = [(tick_instant,''1.0'', ''1.1'')] @ new\<rparr>
     \<and> (\<forall>x\<in>set new. fst x \<noteq> tick_instant)"
  using insert_batch_frame
    [of "[''EURUSD_2024_08'' \<mapsto> \<lparr>table_schema = tick_schema, table_rows = [(tick_instant,''1.0'', ''1.1'')]\<rparr>]"
        "''EURUSD_2024_08''" "\<lparr>table_schema = tick_schema, table_rows = [(tick_instant,''1.0'', ''1.1'')]\<rparr>"
        "[(tick_instant,''2.0'', ''2.1'')]"]
  by simp blast

section \<open>Claims about the Directory Walker\<close>

lemma endswith_iff: "endswith s suf \<longleftrightarrow> (\<exists>p. s = p @ suf)"
proof
  assume "endswith s suf"
  then have "s = take (length s - length suf) s @ suf"
    by (metis append_take_drop_id endswith_def)
  then show "\<exists>p. s = p @ suf" ..
next
  assume "\<exists>p. s = p @ suf"
  then show "endswith s suf" by (auto simp: endswith_def)
qed

lemma startswith_iff: "startswith s c \<longleftrightarrow> (\<exists>t. s = c @ t)"
  by (induction s c rule: startswith.induct) auto

lemma contains_iff: "contains sub s \<longleftrightarrow> (\<exists>p t. s = p @ sub @ t)"
proof (induction s)
  case Nil
  then show ?case by auto
next
  case (Cons x xs)
  show ?case
  proof
    assume "contains sub (x # xs)"
    then consider "startswith (x # xs) sub" | "contains sub xs" by auto
    then show "\<exists>p t. x # xs = p @ sub @ t"
    proof cases
      case 1
      then obtain t where "x # xs = sub @ t" by (auto simp: startswith_iff)
      then have "x # xs = [] @ sub @ t" by simp
      then show ?thesis by blast
    next
      case 2
      then obtain p t where "xs = p @ sub @ t" using Cons.IH by auto
      then have "x # xs = (x # p) @ sub @ t" by simp
      then show ?thesis by blast
    qed
  next
    assume "\<exists>p t. x # xs = p @ sub @ t"
    then obtain p t where e: "x # xs = p @ sub @ t" by auto
    show "contains sub (x # xs)"
    proof (cases p)
      case Nil
      then have "startswith (x # xs) sub" using e by (auto simp: startswith_iff)
      then show ?thesis by simp
    next
      case (Cons a p')
      then have "xs = p' @ sub @ t" using e by simp
      then have "contains sub xs" using Cons.IH by auto
      then show ?thesis by simp
    qed
  qed
qed

lemma iff_conj_neg: "(P \<longleftrightarrow> A \<and> B) \<Longrightarrow> \<not> P \<Longrightarrow> A \<Longrightarrow> \<not> B"
  by blast

text \<open>
  C5. A file visited by the walk is admitted exactly when its name ends in \<open>.zip\<close> and
  contains one of the eight currency codes as a substring. A file that is not admitted
  is skipped (state and result list unchanged); an admitted one goes through
  \<open>process_zip_file\<close> under the path of its directory.
\<close>

theorem admitted_filter:
  "(admitted file \<longleftrightarrow>
      (\<exists>p. file = p @ ''.zip'')
      \<and> (\<exists>c\<in>{''USD'', ''EUR'', ''GBP'', ''JPY'', ''AUD'', ''CAD'', ''CHF'', ''NZD''}.
            \<exists>p t. file = p @ c @ t))
   \<and> (\<not> admitted file \<longrightarrow>
        process_file root file content st processed = (Inr processed, st))
   \<and> (admitted file \<longrightarrow>
        snd (process_file root file content st processed)
          = snd (process_zip_file (path_join root file) content st))"
proof -
  have a: "admitted file \<longleftrightarrow>
      (\<exists>p. file = p @ ''.zip'')
      \<and> (\<exists>c\<in>{''USD'', ''EUR'', ''GBP'', ''JPY'', ''AUD'', ''CAD'', ''CHF'', ''NZD''}.
            \<exists>p t. file = p @ c @ t)"
    unfolding admitted_def endswith_iff list_ex_iff contains_iff currency_codes_def
    by simp
  have b: "\<not> admitted file \<Longrightarrow>
      process_file root file content st processed = (Inr processed, st)"
    by (simp add: process_file_def)
  have c: "admitted file \<Longrightarrow>
      snd (process_file root file content st processed)
        = snd (process_zip_file (path_join root file) content st)"
    by (simp add: process_file_def Let_def split: prod.splits sum.splits)
  show ?thesis using a b c by blast
qed

theorem admitted_filter_witness:
  "admitted ''EURJPY-2024-08.zip'' \<and> \<not> admitted ''readme.zip''
   \<and> (\<exists>c\<in>{''USD'', ''EUR'', ''GBP'', ''JPY'', ''AUD'', ''CAD'', ''CHF'', ''NZD''}.
         \<exists>p t. ''EURJPY-2024-08.zip'' = p @ c @ t)
   \<and> \<not> (\<exists>c\<in>{''USD'', ''EUR'', ''GBP'', ''JPY'', ''AUD'', ''CAD'', ''CHF'', ''NZD''}.
         \<exists>p t. ''readme.zip'' = p @ c @ t)"
proof -
  have 1: "admitted ''EURJPY-2024-08.zip''"
    by (simp add: admitted_def endswith_def currency_codes_def)
  have 2: "\<not> admitted ''readme.zip''"
    by (simp add: admitted_def endswith_def currency_codes_def)
  have 3: "\<exists>p. ''readme.zip'' = p @ ''.zip''" by (rule exI [of _ "''readme''"]) simp
  have a1: "admitted ''EURJPY-2024-08.zip'' \<longleftrightarrow>
      (\<exists>p. ''EURJPY-2024-08.zip'' = p @ ''.zip'')
      \<and> (\<exists>c\<in>{''USD'', ''EUR'', ''GBP'', ''JPY'', ''AUD'', ''CAD'', ''CHF'', ''NZD''}.
            \<exists>p t. ''EURJPY-2024-08.zip'' = p @ c @ t)"
    by (rule conjunct1 [OF admitted_filter])
  have a2: "admitted ''readme.zip'' \<longleftrightarrow>
      (\<exists>p. ''readme.zip'' = p @ ''.zip'')
      \<and> (\<exists>c\<in>{''USD'', ''EUR'', ''GBP'', ''JPY'', ''AUD'', ''CAD'', ''CHF'', ''NZD''}.
            \<exists>p t. ''readme.zip'' = p @ c @ t)"
    by (rule conjunct1 [OF admitted_filter])
  have b1: "\<exists>c\<in>{''USD'', ''EUR'', ''GBP'', ''JPY'', ''AUD'', ''CAD'', ''CHF'', ''NZD''}.
      \<exists>p t. ''EURJPY-2024-08.zip'' = p @ c @ t"
    by (rule conjunct2 [OF iffD1 [OF a1 1]])
  have b2: "\<not> (\<exists>c\<in>{''USD'', ''EUR'', ''GBP'', ''JPY'', ''AUD'', ''CAD'', ''CHF'', ''NZD''}.
      \<exists>p t. ''readme.zip'' = p @ c @ t)"
    by (rule iff_conj_neg [OF a2 2 3])
  show ?thesis using 1 2 b1 b2 by (intro conjI)
qed

section \<open>Facts about the per-archive pipeline\<close>

lemma parse_timestamp_error: "parse_timestamp s = Inl e \<Longrightarrow> e = ValueError"
  by (auto simp: parse_timestamp_def split: sum.splits if_splits dest: strptime_error)

lemma apply_parse_timestamp_error:
  "apply_parse_timestamp c = Inl e \<Longrightarrow> e = ValueError \<or> e = TypeError"
  by (cases c) (auto simp: apply_parse_timestamp_def dest: parse_timestamp_error)

lemma parse_rows_error: "parse_rows c = Inl e \<Longrightarrow> e = ValueError \<or> e = TypeError"
proof (induction c arbitrary: e)
  case Nil
  then show ?case by simp
next
  case (Cons row c)
  obtain p ts b a where row: "row = (p, ts, b, a)" by (cases row)
  show ?case
  proof (cases "apply_parse_timestamp ts")
    case (Inl e')
    then have "e = e'" using Cons.prems by (simp add: row)
    then show ?thesis using apply_parse_timestamp_error [OF Inl] by simp
  next
    case (Inr t)
    then show ?thesis using Cons by (auto simp: row split: sum.splits)
  qed
qed

lemma parse_rows_append:
  "parse_rows (a @ b) =
     (case parse_rows a of
        Inl e \<Rightarrow> Inl e
      | Inr va \<Rightarrow> (case parse_rows b of Inl e \<Rightarrow> Inl e | Inr vb \<Rightarrow> Inr (va @ vb)))"
  by (induction a) (auto split: sum.splits)

lemma parse_rows_ok:
  "\<forall>row\<in>set c. \<exists>t. apply_parse_timestamp (fst (snd row)) = Inr t \<Longrightarrow> \<exists>vs. parse_rows c = Inr vs"
  by (induction c) auto

lemma parse_rows_fails:
  "\<exists>row\<in>set c. \<exists>e. apply_parse_timestamp (fst (snd row)) = Inl e \<Longrightarrow> \<exists>e. parse_rows c = Inl e"
proof (induction c)
  case Nil
  then show ?case by simp
next
  case (Cons row c)
  obtain p ts b a where row: "row = (p, ts, b, a)" by (cases row)
  show ?case
  proof (cases "apply_parse_timestamp ts")
    case (Inl e)
    then show ?thesis by (simp add: row)
  next
    case (Inr t)
    then have "\<exists>r\<in>set c. \<exists>e. apply_parse_timestamp (fst (snd r)) = Inl e"
      using Cons.prems by (auto simp: row)
    from Cons.IH [OF this] obtain e where "parse_rows c = Inl e" by blast
    then show ?thesis using Inr by (simp add: row)
  qed
qed

lemma create_table_accepted:
  "acc tn \<Longrightarrow>
   create_table_if_not_exists acc db tn
     = Inr (case db tn of
              None \<Rightarrow> db(tn \<mapsto> \<lparr>table_schema = tick_schema, table_rows = []\<rparr>)
            | Some _ \<Rightarrow> db)"
  by (simp add: create_table_if_not_exists_def split: option.splits)

lemma create_table_Inr:
  "create_table_if_not_exists acc db tn = Inr db' \<Longrightarrow>
   acc tn \<and> db' tn \<noteq> None \<and> dom db' = insert tn (dom db)"
  by (auto simp: create_table_if_not_exists_def split: if_splits option.splits)

lemma create_table_Inl:
  "create_table_if_not_exists acc db tn = Inl e \<Longrightarrow> \<not> acc tn \<and> e = StoreWriteError"
  by (auto simp: create_table_if_not_exists_def split: if_splits option.splits)

lemma executemany_dom: "executemany db tn vs = Inr db' \<Longrightarrow> dom db' = dom db"
proof -
  assume "executemany db tn vs = Inr db'"
  then obtain t where t: "db tn = Some t"
    and d: "db' = db(tn \<mapsto> t\<lparr>table_rows := insert_batch (table_rows t) vs\<rparr>)"
    by (auto simp: executemany_def split: option.splits)
  have "tn \<in> dom db" using t by auto
  then show ?thesis unfolding d by (simp add: insert_absorb)
qed

lemma executemany_ok: "db tn \<noteq> None \<Longrightarrow> \<exists>db'. executemany db tn vs = Inr db'"
  by (auto simp: executemany_def split: option.splits)

lemma process_chunk_frame:
  "dom (tables (snd (process_chunk tn st c))) = dom (tables st)
   \<and> accepts (snd (process_chunk tn st c)) = accepts st"
proof (cases "parse_rows c")
  case (Inl e)
  then show ?thesis by (simp add: process_chunk_def)
next
  case (Inr vs)
  show ?thesis
  proof (cases "executemany (tables st) tn vs")
    case (Inl e)
    then show ?thesis using Inr by (simp add: process_chunk_def)
  next
    case inr: (Inr db)
    from executemany_dom [OF inr] show ?thesis using Inr inr by (simp add: process_chunk_def)
  qed
qed

lemma process_chunks_frame:
  "dom (tables (snd (process_chunks tn st cs))) = dom (tables st)
   \<and> accepts (snd (process_chunks tn st cs)) = accepts st"
proof (induction cs arbitrary: st)
  case Nil
  then show ?case by simp
next
  case (Cons c cs)
  obtain r st' where p: "process_chunk tn st c = (r, st')" by (cases "process_chunk tn st c")
  have f: "dom (tables st') = dom (tables st) \<and> accepts st' = accepts st"
    using process_chunk_frame [of tn st c] p by simp
  show ?case
  proof (cases r)
    case None
    then show ?thesis using p f Cons.IH [of st'] by simp
  next
    case (Some a)
    then show ?thesis using p f by simp
  qed
qed

lemma process_chunks_append:
  "process_chunks tn st (a @ b) =
     (case process_chunks tn st a of
        (Some e, st') \<Rightarrow> (Some e, st')
      | (None, st') \<Rightarrow> process_chunks tn st' b)"
  by (induction a arbitrary: st) (auto split: prod.splits option.splits)

lemma chunks_concat: "concat (chunks n xs) = xs"
proof (induction n xs rule: chunks.induct)
  case (1 n xs)
  show ?case
  proof (cases "n = 0 \<or> length xs \<le> n")
    case True
    then show ?thesis by (subst chunks.simps) simp
  next
    case False
    then have "concat (chunks n (drop n xs)) = drop n xs" using 1 by simp
    then show ?thesis using False by (subst chunks.simps) simp
  qed
qed

lemma archive_rows:
  "concat (archive_batches entries)
   = concat (map snd (filter (\<lambda>(filename, payload). endswith filename ''.csv'') entries))"
  by (induction entries) (auto simp: archive_batches_def chunks_concat)

lemma insert_batch_append:
  "insert_batch rows (a @ b) = insert_batch (insert_batch rows a) b"
  by (simp add: insert_batch_def)

lemma insert_batch_Nil: "insert_batch rows [] = rows"
  by (simp add: insert_batch_def)

lemma process_chunk_ok:
  assumes "tables st tn = Some t" "parse_rows c = Inr vs"
  shows "fst (process_chunk tn st c) = None
       \<and> tables (snd (process_chunk tn st c))
           = (tables st)(tn \<mapsto> t\<lparr>table_rows := insert_batch (table_rows t) vs\<rparr>)
       \<and> accepts (snd (process_chunk tn st c)) = accepts st"
  using assms by (simp add: process_chunk_def executemany_def)

lemma process_chunk_fail:
  "parse_rows c = Inl e \<Longrightarrow> process_chunk tn st c = (Some e, st)"
  by (simp add: process_chunk_def)

lemma process_chunks_ok:
  "tables st tn = Some t \<Longrightarrow> parse_rows (concat cs) = Inr vs \<Longrightarrow>
   fst (process_chunks tn st cs) = None
   \<and> tables (snd (process_chunks tn st cs))
       = (tables st)(tn \<mapsto> t\<lparr>table_rows := insert_batch (table_rows t) vs\<rparr>)
   \<and> accepts (snd (process_chunks tn st cs)) = accepts st"
proof (induction cs arbitrary: st t vs)
  case Nil
  then have "vs = []" by simp
  then show ?case using Nil.prems(1) by (simp add: insert_batch_Nil map_upd_triv)
next
  case (Cons c cs)
  from Cons.prems(2) obtain v1 v2 where v1: "parse_rows c = Inr v1"
    and v2: "parse_rows (concat cs) = Inr v2" and vs: "vs = v1 @ v2"
    by (auto simp: parse_rows_append split: sum.splits)
  let ?t1 = "t\<lparr>table_rows := insert_batch (table_rows t) v1\<rparr>"
  obtain r st1 where p: "process_chunk tn st c = (r, st1)" by (cases "process_chunk tn st c")
  from process_chunk_ok [OF Cons.prems(1) v1] p
  have r: "r = None" and t1: "tables st1 = (tables st)(tn \<mapsto> ?t1)"
    and a1: "accepts st1 = accepts st" by simp_all
  have e: "tables st1 tn = Some ?t1" by (simp add: t1)
  note ih = Cons.IH [OF e v2]
  have i1: "fst (process_chunks tn st1 cs) = None" using ih by (elim conjE)
  have i2: "tables (snd (process_chunks tn st1 cs))
       = (tables st1)(tn \<mapsto> ?t1\<lparr>table_rows := insert_batch (table_rows ?t1) v2\<rparr>)"
    using ih by (elim conjE)
  have i3: "accepts (snd (process_chunks tn st1 cs)) = accepts st1" using ih by (elim conjE)
  have s: "process_chunks tn st (c # cs) = process_chunks tn st1 cs" by (simp add: p r)
  have u: "tables (snd (process_chunks tn st1 cs))
      = (tables st)(tn \<mapsto> t\<lparr>table_rows := insert_batch (table_rows t) vs\<rparr>)"
    unfolding i2 t1 vs by (simp add: insert_batch_append)
  show ?case unfolding s using i1 i3 a1 u by simp
qed

lemma process_chunks_fail:
  assumes "tables st tn = Some t" "parse_rows (concat pre) = Inr vs" "parse_rows b = Inl e"
  shows "fst (process_chunks tn st (pre @ b # post)) = Some e
       \<and> tables (snd (process_chunks tn st (pre @ b # post)))
           = (tables st)(tn \<mapsto> t\<lparr>table_rows := insert_batch (table_rows t) vs\<rparr>)"
proof -
  obtain r st1 where p: "process_chunks tn st pre = (r, st1)"
    by (cases "process_chunks tn st pre")
  from process_chunks_ok [OF assms(1,2)] p
  have r: "r = None"
    and t1: "tables st1 = (tables st)(tn \<mapsto> t\<lparr>table_rows := insert_batch (table_rows t) vs\<rparr>)"
    by simp_all
  show ?thesis
    by (simp add: process_chunks_append p r process_chunk_fail [OF assms(3)] t1)
qed

lemma process_entries_batches:
  "process_entries tn st entries = process_chunks tn st (archive_batches entries)"
proof (induction entries arbitrary: st)
  case Nil
  then show ?case by (simp add: archive_batches_def)
next
  case (Cons en entries)
  obtain filename payload where en: "en = (filename, payload)" by (cases en)
  have step: "archive_batches ((filename, payload) # entries) =
      (if endswith filename ''.csv'' then chunks chunk_size payload else [])
      @ archive_batches entries"
    by (simp add: archive_batches_def)
  show ?case
    unfolding en step
    by (simp add: process_chunks_append Cons.IH split: prod.splits option.splits)
qed

lemma archive_batches_no_csv:
  "\<forall>e\<in>set entries. \<not> endswith (fst e) ''.csv'' \<Longrightarrow> archive_batches entries = []"
  by (induction entries) (auto simp: archive_batches_def)

lemma process_zip_file_unresolved:
  "get_table_name zip_path = Inl e \<Longrightarrow> process_zip_file zip_path content st = (Inl e, st)"
  by (simp add: process_zip_file_def)

lemma process_zip_file_refused:
  "get_table_name zip_path = Inr tn \<Longrightarrow> \<not> accepts st tn \<Longrightarrow>
   process_zip_file zip_path content st =
     (Inl StoreWriteError,
      st\<lparr>stdout := stdout st @ [''Processing '' @ zip_path @ '' into table '' @ tn]\<rparr>)"
  by (simp add: process_zip_file_def Let_def create_table_if_not_exists_def)

lemma process_zip_file_archive:
  "get_table_name zip_path = Inr tn \<Longrightarrow> accepts st tn \<Longrightarrow>
   process_zip_file zip_path (ZipArchive entries) st =
     (case process_chunks tn
             (st\<lparr>stdout := stdout st @ [''Processing '' @ zip_path @ '' into table '' @ tn],
                 tables := (case tables st tn of
                              None \<Rightarrow> (tables st)(tn \<mapsto> \<lparr>table_schema = tick_schema,
                                                          table_rows = []\<rparr>)
                            | Some _ \<Rightarrow> tables st)\<rparr>)
             (archive_batches entries) of
        (Some e, st3) \<Rightarrow> (Inl e, st3)
      | (None, st3) \<Rightarrow>
          (Inr tn, st3\<lparr>stdout := stdout st3 @ [''Finished processing '' @ tn]\<rparr>))"
  by (simp add: process_zip_file_def Let_def process_entries_batches create_table_accepted)

lemma process_zip_file_not_zip:
  "get_table_name zip_path = Inr tn \<Longrightarrow> accepts st tn \<Longrightarrow>
   process_zip_file zip_path NotAZipFile st =
     (Inl BadZipFile,
      st\<lparr>stdout := stdout st @ [''Processing '' @ zip_path @ '' into table '' @ tn],
         tables := (case tables st tn of
                      None \<Rightarrow> (tables st)(tn \<mapsto> \<lparr>table_schema = tick_schema, table_rows = []\<rparr>)
                    | Some _ \<Rightarrow> tables st)\<rparr>)"
  by (simp add: process_zip_file_def Let_def create_table_accepted)

lemma created_dom:
  "dom (case db tn of
          None \<Rightarrow> db(tn \<mapsto> \<lparr>table_schema = tick_schema, table_rows = []\<rparr>)
        | Some _ \<Rightarrow> db) = insert tn (dom db)"
  by (auto split: option.splits)

lemma process_zip_file_accepted:
  assumes "get_table_name zip_path = Inr tn" "accepts st tn"
  shows "dom (tables (snd (process_zip_file zip_path content st))) = insert tn (dom (tables st))
       \<and> accepts (snd (process_zip_file zip_path content st)) = accepts st"
proof (cases content)
  case (ZipArchive entries)
  let ?st2 = "st\<lparr>stdout := stdout st @ [''Processing '' @ zip_path @ '' into table '' @ tn],
      tables := (case tables st tn of
                   None \<Rightarrow> (tables st)(tn \<mapsto> \<lparr>table_schema = tick_schema, table_rows = []\<rparr>)
                 | Some _ \<Rightarrow> tables st)\<rparr>"
  obtain r st3 where p: "process_chunks tn ?st2 (archive_batches entries) = (r, st3)"
    by (cases "process_chunks tn ?st2 (archive_batches entries)")
  from process_chunks_frame [of tn ?st2 "archive_batches entries"] p
  have f: "dom (tables st3) = insert tn (dom (tables st))" "accepts st3 = accepts st"
    by (simp_all add: created_dom)
  show ?thesis
    unfolding ZipArchive process_zip_file_archive [OF assms] p
    using f by (cases r) simp_all
next
  case NotAZipFile
  show ?thesis
    unfolding NotAZipFile process_zip_file_not_zip [OF assms] by (simp add: created_dom)
qed

lemma process_zip_file_frame:
  "dom (tables st) \<subseteq> dom (tables (snd (process_zip_file zip_path content st)))
   \<and> accepts (snd (process_zip_file zip_path content st)) = accepts st"
proof (cases "get_table_name zip_path")
  case (Inl e)
  then show ?thesis by (simp add: process_zip_file_unresolved)
next
  case (Inr tn)
  show ?thesis
  proof (cases "accepts st tn")
    case True
    from process_zip_file_accepted [OF Inr True, of content] show ?thesis by auto
  next
    case False
    then show ?thesis by (simp add: process_zip_file_refused [OF Inr])
  qed
qed

lemma process_zip_file_Inr:
  assumes "process_zip_file zip_path content st = (Inr tn, st')"
  shows "get_table_name zip_path = Inr tn \<and> accepts st tn \<and> tn \<in> dom (tables st')"
proof (cases "get_table_name zip_path")
  case (Inl e)
  then show ?thesis using assms by (simp add: process_zip_file_unresolved)
next
  case (Inr tn')
  show ?thesis
  proof (cases "accepts st tn'")
    case False
    then show ?thesis using assms by (simp add: process_zip_file_refused [OF Inr])
  next
    case True
    have eq: "tn' = tn"
    proof (cases content)
      case (ZipArchive entries)
      then show ?thesis using assms
        by (auto simp: process_zip_file_archive [OF Inr True] split: prod.splits option.splits)
    next
      case NotAZipFile
      then show ?thesis using assms by (simp add: process_zip_file_not_zip [OF Inr True])
    qed
    from process_zip_file_accepted [OF Inr True, of content] assms
    have "tn' \<in> dom (tables st')" by auto
    then show ?thesis using Inr True eq by simp
  qed
qed

lemma created_table:
  "(case db tn of
      None \<Rightarrow> db(tn \<mapsto> \<lparr>table_schema = tick_schema, table_rows = []\<rparr>)
    | Some _ \<Rightarrow> db) tn
   = Some (case db tn of None \<Rightarrow> \<lparr>table_schema = tick_schema, table_rows = []\<rparr> | Some t \<Rightarrow> t)"
  by (simp split: option.splits)

lemma created_update:
  "(case db tn of
      None \<Rightarrow> db(tn \<mapsto> \<lparr>table_schema = tick_schema, table_rows = []\<rparr>)
    | Some _ \<Rightarrow> db)(tn \<mapsto> t') = db(tn \<mapsto> t')"
  by (simp split: option.splits)

lemma process_zip_file_rows:
  assumes "get_table_name zip_path = Inr tn" "accepts st tn"
    and "parse_rows (concat (archive_batches entries)) = Inr vs"
  shows "fst (process_zip_file zip_path (ZipArchive entries) st) = Inr tn
       \<and> tables (snd (process_zip_file zip_path (ZipArchive entries) st))
           = (tables st)(tn \<mapsto>
               (case tables st tn of
                  None \<Rightarrow> \<lparr>table_schema = tick_schema, table_rows = insert_batch [] vs\<rparr>
                | Some t \<Rightarrow> t\<lparr>table_rows := insert_batch (table_rows t) vs\<rparr>))"
proof -
  let ?db = "case tables st tn of
      None \<Rightarrow> (tables st)(tn \<mapsto> \<lparr>table_schema = tick_schema, table_rows = []\<rparr>)
    | Some _ \<Rightarrow> tables st"
  let ?t = "case tables st tn of
      None \<Rightarrow> \<lparr>table_schema = tick_schema, table_rows = []\<rparr> | Some t \<Rightarrow> t"
  let ?st2 = "st\<lparr>stdout := stdout st @ [''Processing '' @ zip_path @ '' into table '' @ tn],
      tables := ?db\<rparr>"
  have e: "tables ?st2 tn = Some ?t" by (simp add: created_table)
  obtain r st3 where p: "process_chunks tn ?st2 (archive_batches entries) = (r, st3)"
    by (cases "process_chunks tn ?st2 (archive_batches entries)")
  from process_chunks_ok [OF e assms(3)] p
  have r: "r = None"
    and t3: "tables st3 = ?db(tn \<mapsto> ?t\<lparr>table_rows := insert_batch (table_rows ?t) vs\<rparr>)"
    by simp_all
  have z: "process_zip_file zip_path (ZipArchive entries) st
      = (Inr tn, st3\<lparr>stdout := stdout st3 @ [''Finished processing '' @ tn]\<rparr>)"
    unfolding process_zip_file_archive [OF assms(1,2)] p r by simp
  show ?thesis unfolding z by (simp add: t3 created_update split: option.splits)
qed

lemma process_zip_file_fails:
  assumes "get_table_name zip_path = Inr tn" "accepts st tn"
    and "archive_batches entries = pre @ b # post"
    and "parse_rows (concat pre) = Inr vs" "parse_rows b = Inl e"
  shows "fst (process_zip_file zip_path (ZipArchive entries) st) = Inl e
       \<and> tables (snd (process_zip_file zip_path (ZipArchive entries) st))
           = (tables st)(tn \<mapsto>
               (case tables st tn of
                  None \<Rightarrow> \<lparr>table_schema = tick_schema, table_rows = insert_batch [] vs\<rparr>
                | Some t \<Rightarrow> t\<lparr>table_rows := insert_batch (table_rows t) vs\<rparr>))"
proof -
  let ?db = "case tables st tn of
      None \<Rightarrow> (tables st)(tn \<mapsto> \<lparr>table_schema = tick_schema, table_rows = []\<rparr>)
    | Some _ \<Rightarrow> tables st"
  let ?t = "case tables st tn of
      None \<Rightarrow> \<lparr>table_schema = tick_schema, table_rows = []\<rparr> | Some t \<Rightarrow> t"
  let ?st2 = "st\<lparr>stdout := stdout st @ [''Processing '' @ zip_path @ '' into table '' @ tn],
      tables := ?db\<rparr>"
  have e: "tables ?st2 tn = Some ?t" by (simp add: created_table)
  obtain r st3 where p: "process_chunks tn ?st2 (pre @ b # post) = (r, st3)"
    by (cases "process_chunks tn ?st2 (pre @ b # post)")
  from process_chunks_fail [OF e assms(4,5), of post] p
  have r: "r = Some e"
    and t3: "tables st3 = ?db(tn \<mapsto> ?t\<lparr>table_rows := insert_batch (table_rows ?t) vs\<rparr>)"
    by simp_all
  have z: "process_zip_file zip_path (ZipArchive entries) st = (Inl e, st3)"
    unfolding process_zip_file_archive [OF assms(1,2)] assms(3) p r by simp
  show ?thesis unfolding z by (simp add: t3 created_update split: option.splits)
qed

section \<open>Facts about the Directory Walker\<close>

lemma process_file_Inr:
  assumes "process_file root file content st acc = (Inr acc', st')"
  shows "map Inr acc' = map Inr acc
           @ map get_table_name (if admitted file then [path_join root file] else [])
       \<and> dom (tables st) \<subseteq> dom (tables st') \<and> set acc' \<subseteq> set acc \<union> dom (tables st')
       \<and> accepts st' = accepts st"
proof (cases "admitted file")
  case False
  then show ?thesis using assms by (auto simp: process_file_def)
next
  case True
  obtain r st1 where z: "process_zip_file (path_join root file) content st = (r, st1)"
    by (cases "process_zip_file (path_join root file) content st")
  from assms True z obtain tn where r: "r = Inr tn" and a: "acc' = acc @ [tn]" and s: "st' = st1"
    by (cases r) (auto simp: process_file_def Let_def)
  from process_zip_file_Inr [OF z [unfolded r]]
  have g: "get_table_name (path_join root file) = Inr tn" and d: "tn \<in> dom (tables st1)"
    by simp_all
  from process_zip_file_frame [of st "path_join root file" content] z
  have f: "dom (tables st) \<subseteq> dom (tables st1)" "accepts st1 = accepts st" by simp_all
  show ?thesis using True a s g d f by auto
qed

lemma process_files_Inr:
  "process_files root files st acc = (Inr acc', st') \<Longrightarrow>
   map Inr acc' = map Inr acc @ map get_table_name (admitted_paths [(root, files)])
   \<and> dom (tables st) \<subseteq> dom (tables st') \<and> set acc' \<subseteq> set acc \<union> dom (tables st')
   \<and> accepts st' = accepts st"
proof (induction files arbitrary: st acc)
  case Nil
  then show ?case by (auto simp: admitted_paths_def)
next
  case (Cons fc files)
  obtain fname content where fc: "fc = (fname, content)" by (cases fc)
  obtain r st1 where p: "process_file root fname content st acc = (r, st1)"
    by (cases "process_file root fname content st acc")
  from Cons.prems obtain acc1 where r: "r = Inr acc1"
    and rest: "process_files root files st1 acc1 = (Inr acc', st')"
    by (cases r) (auto simp: fc p)
  note h = process_file_Inr [OF p [unfolded r]]
  note i = Cons.IH [OF rest]
  have paths: "admitted_paths [(root, (fname, content) # files)]
      = (if admitted fname then [path_join root fname] else []) @ admitted_paths [(root, files)]"
    by (simp add: admitted_paths_def)
  have 1: "map Inr acc' = map Inr acc
      @ map get_table_name (admitted_paths [(root, (fname, content) # files)])"
    using h i by (simp only: paths map_append append_assoc)
  have 2: "dom (tables st) \<subseteq> dom (tables st')" using h i by blast
  have 3: "set acc' \<subseteq> set acc \<union> dom (tables st')" using h i by blast
  have 4: "accepts st' = accepts st" using h i by simp
  show ?case unfolding fc using 1 2 3 4 by (intro conjI)
qed

lemma admitted_paths_Cons:
  "admitted_paths ((root, files) # ds) = admitted_paths [(root, files)] @ admitted_paths ds"
  by (simp add: admitted_paths_def)

lemma process_dirs_Inr:
  "process_dirs ds st acc = (Inr acc', st') \<Longrightarrow>
   map Inr acc' = map Inr acc @ map get_table_name (admitted_paths ds)
   \<and> dom (tables st) \<subseteq> dom (tables st') \<and> set acc' \<subseteq> set acc \<union> dom (tables st')
   \<and> accepts st' = accepts st"
proof (induction ds arbitrary: st acc)
  case Nil
  then show ?case by (auto simp: admitted_paths_def)
next
  case (Cons d ds)
  obtain root files where d: "d = (root, files)" by (cases d)
  obtain r st1 where p: "process_files root files st acc = (r, st1)"
    by (cases "process_files root files st acc")
  from Cons.prems obtain acc1 where r: "r = Inr acc1"
    and rest: "process_dirs ds st1 acc1 = (Inr acc', st')"
    by (cases r) (auto simp: d p)
  note h = process_files_Inr [OF p [unfolded r]]
  note i = Cons.IH [OF rest]
  have 1: "map Inr acc' = map Inr acc @ map get_table_name (admitted_paths ((root, files) # ds))"
    using h i by (simp only: admitted_paths_Cons [of root files ds] map_append append_assoc)
  have 2: "dom (tables st) \<subseteq> dom (tables st')" using h i by blast
  have 3: "set acc' \<subseteq> set acc \<union> dom (tables st')" using h i by blast
  have 4: "accepts st' = accepts st" using h i by simp
  show ?case unfolding d using 1 2 3 4 by (intro conjI)
qed

lemma process_data_directory_Inr:
  assumes "process_data_directory dir db_name node srv out = (Inr result, srv', out')"
  shows "map Inr result = map get_table_name (admitted_paths (walk dir node))
       \<and> (\<exists>ad at dbs d. srv' = Server ad at dbs \<and> dbs db_name = Some d \<and> set result \<subseteq> dom d)"
proof (cases srv)
  case Unreachable
  then show ?thesis using assms by (simp add: process_data_directory_def)
next
  case (Server ad at dbs)
  let ?st = "\<lparr>accepts = at, tables = (case dbs db_name of None \<Rightarrow> Map.empty | Some d \<Rightarrow> d),
      stdout = out @ [''Using database: '' @ db_name]\<rparr>"
  obtain r st' where p: "process_dirs (walk dir node) ?st [] = (r, st')"
    by (cases "process_dirs (walk dir node) ?st []")
  from assms have ok: "ad db_name"
    by (auto simp: process_data_directory_def Server split: if_splits)
  from assms ok p have r: "r = Inr result"
    and s: "srv' = Server ad at (dbs(db_name \<mapsto> tables st'))"
    by (simp_all add: process_data_directory_def Server Let_def)
  from process_dirs_Inr [OF p [unfolded r]]
  have 1: "map Inr result = map get_table_name (admitted_paths (walk dir node))"
    and 2: "set result \<subseteq> dom (tables st')" by simp_all
  show ?thesis using 1 2 s by simp
qed

section \<open>Worked inputs\<close>

lemma table_name_example: "get_table_name ''data/EURUSD-2024-08.zip'' = Inr ''EURUSD_2024_08''"
  by (simp add: get_table_name_def basename_def py_index_def)

lemma table_name_usd: "get_table_name ''data/USD.zip'' = Inl IndexError"
  by (simp add: get_table_name_def basename_def py_index_def)

lemma bare_example: "bare_identifier ''EURUSD_2024_08''"
  by (simp add: bare_identifier_def in_range_def)

lemma admitted_examples: "admitted ''EURUSD-2024-08.zip''" "admitted ''USD.zip''"
  by (simp_all add: admitted_def endswith_def currency_codes_def)

lemma path_examples:
  "path_join ''data'' ''EURUSD-2024-08.zip'' = ''data/EURUSD-2024-08.zip''"
  "path_join ''data'' ''USD.zip'' = ''data/USD.zip''"
  by (simp_all add: path_join_def)

lemma chunks_small: "length xs \<le> chunk_size \<Longrightarrow> chunks chunk_size xs = [xs]"
  by (subst chunks.simps) simp

lemma no_csv_example:
  "archive_batches [(''readme.txt'', ([] :: string csv_row list))] = []"
  by (simp add: archive_batches_def endswith_def)

lemma archive_example:
  "process_zip_file ''data/EURUSD-2024-08.zip''
     (ZipArchive [(''readme.txt'', ([] :: string csv_row list))])
     \<lparr>accepts = bare_identifier, tables = Map.empty, stdout = out\<rparr>
   = (Inr ''EURUSD_2024_08'',
      \<lparr>accepts = bare_identifier,
       tables = [''EURUSD_2024_08'' \<mapsto> \<lparr>table_schema = tick_schema, table_rows = []\<rparr>],
       stdout = out @ [''Processing data/EURUSD-2024-08.zip into table EURUSD_2024_08'',
                       ''Finished processing EURUSD_2024_08'']\<rparr>)"
  by (simp add: process_zip_file_archive [OF table_name_example] bare_example no_csv_example)

lemma run_example:
  "process_data_directory ''data'' ''forex_data''
     (Dir [(''EURUSD-2024-08.zip'',
            File (ZipArchive [(''readme.txt'', ([] :: string csv_row list))]))])
     (Server bare_identifier bare_identifier Map.empty) []
   = (Inr [''EURUSD_2024_08''],
      Server bare_identifier bare_identifier
        [''forex_data'' \<mapsto>
           [''EURUSD_2024_08'' \<mapsto> \<lparr>table_schema = tick_schema, table_rows = []\<rparr>]],
      [''Using database: forex_data'',
       ''Processing data/EURUSD-2024-08.zip into table EURUSD_2024_08'',
       ''Finished processing EURUSD_2024_08''])"
  by (simp add: process_data_directory_def bare_identifier_def in_range_def files_of_def
      process_file_def admitted_examples path_examples archive_example)

lemma parse_fraction:
  assumes "valid_fields y m d H M S" "\<forall>c\<in>set fs. is_digit c" "1 \<le> length fs" "length fs \<le> 6"
  shows "parse_timestamp (stamp_text y m d H M S @ CHR ''.'' # fs)
    = Inr \<lparr>year = y, month = m, day = d, hour = H, minute = M, second = S,
           microsecond = py_int (fs @ replicate (6 - length fs) (CHR ''0''))\<rparr>"
  by (simp add: parse_timestamp_def strptime_frac [OF assms])

lemma parse_example: "parse_timestamp ''20240801 00:00:00.110'' = Inr tick_instant"
proof -
  have d: "\<forall>c\<in>set ''110''. is_digit c" by (simp add: is_digit_def)
  have r: "replicate 3 (CHR ''0'') = ''000''" by (simp add: numeral_3_eq_3)
  have p: "py_int ''110000'' = 110000" by (simp add: py_int_def is_ascii_space_def digit_val_def)
  from parse_fraction [OF valid_example d, simplified] r p
  show ?thesis by (simp add: stamp_example tick_instant_def)
qed


lemma parse_bad_example: "parse_timestamp ''2024-08-01'' = Inl ValueError"
  by code_simp

section \<open>Claims about the per-archive pipeline\<close>

text \<open>
  C10 as stated fails: the file \<open>USD.zip\<close> passes the admission filter, but its name has
  no three dash-separated tokens, so \<open>get_table_name\<close> raises \<open>IndexError\<close> before the
  \<open>CREATE TABLE\<close> statement: no table is created for this admitted archive. The error
  ends the run, so the identifier of an archive processed before it is not returned
  either.
\<close>

theorem admitted_archive_without_table:
  "admitted ''USD.zip''
   \<and> process_file ''data'' ''USD.zip'' (ZipArchive ([] :: string zip_entry list))
        \<lparr>accepts = bare_identifier, tables = Map.empty, stdout = []\<rparr> []
      = (Inl IndexError, \<lparr>accepts = bare_identifier, tables = Map.empty, stdout = []\<rparr>)
   \<and> fst (process_data_directory ''data'' ''forex_data''
        (Dir [(''EURUSD-2024-08.zip'',
               File (ZipArchive [(''readme.txt'', ([] :: string csv_row list))])),
              (''USD.zip'', File (ZipArchive []))])
        (Server bare_identifier bare_identifier Map.empty) []) = Inl IndexError"
  by (simp add: process_data_directory_def bare_identifier_def in_range_def files_of_def
      process_file_def admitted_examples path_examples archive_example
      process_zip_file_unresolved [OF table_name_usd])

text \<open>
  C10, amended. For every admitted archive whose file name resolves to a table
  identifier that the server accepts in the \<open>CREATE TABLE\<close> statement: the table exists
  after \<open>process_zip_file\<close> whatever the file holds (it is created before the archive is
  opened). When the archive has no \<open>.csv\<close> entry, the call returns the identifier, the
  database is the old one with the table added with the full schema and no rows if it
  was absent and is unchanged if it was present, and the orchestrator's loop appends the
  identifier to its list. When the whole run completes, the list it returns is the
  identifiers of all admitted archives in the order of the walk, so it holds this
  archive's identifier, and the table is in the database the run leaves.
\<close>

theorem admitted_archive_without_csv:
  assumes "get_table_name zip_path = Inr tn" and "accepts st tn"
  shows "(\<forall>content. tables (snd (process_zip_file zip_path content st)) tn \<noteq> None)
       \<and> ((\<forall>e\<in>set entries. \<not> endswith (fst e) ''.csv'') \<longrightarrow>
             fst (process_zip_file zip_path (ZipArchive entries) st) = Inr tn
           \<and> (tables st tn = None \<longrightarrow>
                tables (snd (process_zip_file zip_path (ZipArchive entries) st))
                  = (tables st)(tn \<mapsto> \<lparr>table_schema = tick_schema, table_rows = []\<rparr>))
           \<and> (tables st tn \<noteq> None \<longrightarrow>
                tables (snd (process_zip_file zip_path (ZipArchive entries) st)) = tables st)
           \<and> (admitted fname \<and> path_join root fname = zip_path \<longrightarrow>
                fst (process_file root fname (ZipArchive entries) st processed)
                  = Inr (processed @ [tn])))
       \<and> (process_data_directory dir db_name node srv out = (Inr result, srv', out')
            \<and> zip_path \<in> set (admitted_paths (walk dir node)) \<longrightarrow>
             tn \<in> set result
           \<and> map Inr result = map get_table_name (admitted_paths (walk dir node))
           \<and> (\<exists>ad at dbs d. srv' = Server ad at dbs \<and> dbs db_name = Some d \<and> d tn \<noteq> None))"
proof -
  have 1: "\<forall>content. tables (snd (process_zip_file zip_path content st)) tn \<noteq> None"
  proof
    fix content
    from process_zip_file_accepted [OF assms, of content]
    have "tn \<in> dom (tables (snd (process_zip_file zip_path content st)))" by simp
    then show "tables (snd (process_zip_file zip_path content st)) tn \<noteq> None" by auto
  qed
  have 2: "fst (process_zip_file zip_path (ZipArchive entries) st) = Inr tn
      \<and> (tables st tn = None \<longrightarrow>
           tables (snd (process_zip_file zip_path (ZipArchive entries) st))
             = (tables st)(tn \<mapsto> \<lparr>table_schema = tick_schema, table_rows = []\<rparr>))
      \<and> (tables st tn \<noteq> None \<longrightarrow>
           tables (snd (process_zip_file zip_path (ZipArchive entries) st)) = tables st)
      \<and> (admitted fname \<and> path_join root fname = zip_path \<longrightarrow>
           fst (process_file root fname (ZipArchive entries) st processed)
             = Inr (processed @ [tn]))"
    if n: "\<forall>e\<in>set entries. \<not> endswith (fst e) ''.csv''"
  proof -
    have b: "archive_batches entries = []" by (rule archive_batches_no_csv [OF n])
    have r: "fst (process_zip_file zip_path (ZipArchive entries) st) = Inr tn"
      by (simp add: process_zip_file_archive [OF assms] b)
    have t: "tables (snd (process_zip_file zip_path (ZipArchive entries) st))
        = (case tables st tn of
             None \<Rightarrow> (tables st)(tn \<mapsto> \<lparr>table_schema = tick_schema, table_rows = []\<rparr>)
           | Some _ \<Rightarrow> tables st)"
      by (simp add: process_zip_file_archive [OF assms] b)
    have p: "admitted fname \<and> path_join root fname = zip_path \<longrightarrow>
        fst (process_file root fname (ZipArchive entries) st processed) = Inr (processed @ [tn])"
      using r by (auto simp: process_file_def Let_def split: prod.splits sum.splits)
    show ?thesis using r t p by (auto split: option.splits)
  qed
  have 3: "tn \<in> set result
      \<and> map Inr result = map get_table_name (admitted_paths (walk dir node))
      \<and> (\<exists>ad at dbs d. srv' = Server ad at dbs \<and> dbs db_name = Some d \<and> d tn \<noteq> None)"
    if run: "process_data_directory dir db_name node srv out = (Inr result, srv', out')"
      and z: "zip_path \<in> set (admitted_paths (walk dir node))"
  proof -
    from process_data_directory_Inr [OF run] obtain ad "at" dbs d where
      m: "map Inr result = map get_table_name (admitted_paths (walk dir node))"
      and s: "srv' = Server ad at dbs" "dbs db_name = Some d" "set result \<subseteq> dom d" by blast
    have "get_table_name zip_path \<in> set (map get_table_name (admitted_paths (walk dir node)))"
      using z by simp
    then have "Inr tn \<in> set (map get_table_name (admitted_paths (walk dir node)))"
      by (simp only: assms(1))
    then have "(Inr tn :: error + string) \<in> set (map Inr result)" by (simp only: m)
    then have i: "tn \<in> set result" by auto
    then have "d tn \<noteq> None" using s(3) by auto
    then show ?thesis using i m s(1,2) by blast
  qed
  show ?thesis using 1 2 3 by blast
qed

theorem admitted_archive_without_csv_witness:
  "tables (snd (process_zip_file ''data/EURUSD-2024-08.zip'' NotAZipFile
       \<lparr>accepts = bare_identifier, tables = (Map.empty :: string database), stdout = []\<rparr>))
     ''EURUSD_2024_08'' \<noteq> None
   \<and> fst (process_zip_file ''data/EURUSD-2024-08.zip''
         (ZipArchive [(''readme.txt'', ([] :: string csv_row list))])
         \<lparr>accepts = bare_identifier, tables = Map.empty, stdout = []\<rparr>) = Inr ''EURUSD_2024_08''
   \<and> tables (snd (process_zip_file ''data/EURUSD-2024-08.zip''
         (ZipArchive [(''readme.txt'', ([] :: string csv_row list))])
         \<lparr>accepts = bare_identifier, tables = Map.empty, stdout = []\<rparr>))
       = [''EURUSD_2024_08'' \<mapsto> \<lparr>table_schema = tick_schema, table_rows = []\<rparr>]
   \<and> ''EURUSD_2024_08'' \<in> set [''EURUSD_2024_08'']
   \<and> map Inr [''EURUSD_2024_08'']
       = map get_table_name
           (admitted_paths (walk ''data''
              (Dir [(''EURUSD-2024-08.zip'',
                     File (ZipArchive [(''readme.txt'', ([] :: string csv_row list))]))])))"
proof -
  have e: "\<forall>e\<in>set [(''readme.txt'', ([] :: string csv_row list))]. \<not> endswith (fst e) ''.csv''"
    by (simp add: endswith_def)
  have z: "''data/EURUSD-2024-08.zip''
      \<in> set (admitted_paths (walk ''data''
           (Dir [(''EURUSD-2024-08.zip'',
                  File (ZipArchive [(''readme.txt'', ([] :: string csv_row list))]))])))"
    by (simp add: admitted_paths_def files_of_def admitted_examples path_examples)
  have a: "accepts \<lparr>accepts = bare_identifier, tables = (Map.empty :: string database),
      stdout = []\<rparr> ''EURUSD_2024_08''"
    by (simp add: bare_example)
  from admitted_archive_without_csv [OF table_name_example a,
      where entries = "[(''readme.txt'', ([] :: string csv_row list))]"
        and fname = "[]" and root = "[]" and processed = "[]"
        and dir = "''data''" and db_name = "''forex_data''"
        and node = "Dir [(''EURUSD-2024-08.zip'',
                     File (ZipArchive [(''readme.txt'', ([] :: string csv_row list))]))]"
        and srv = "Server bare_identifier bare_identifier Map.empty" and out = "[]"
        and result = "[''EURUSD_2024_08'']"
        and srv' = "Server bare_identifier bare_identifier
              [''forex_data'' \<mapsto>
                 [''EURUSD_2024_08'' \<mapsto> \<lparr>table_schema = tick_schema, table_rows = []\<rparr>]]"
        and out' = "[''Using database: forex_data'',
             ''Processing data/EURUSD-2024-08.zip into table EURUSD_2024_08'',
             ''Finished processing EURUSD_2024_08'']"]
    e z run_example
  show ?thesis by simp
qed

section \<open>Claims about the stored timestamp\<close>





section \<open>Claims about a failing import\<close>

lemma bid_rows_example:
  "parse_rows (concat (archive_batches [(''EURUSD-2024-08.csv'',
      [(''EURUSD'', Text ''20240801 00:00:00.110'', ''abc'', ''1.08431'')])]))
   = Inr [(tick_instant, ''abc'', ''1.08431'')]"
  unfolding archive_rows
  by (simp add: endswith_def apply_parse_timestamp_def parse_example)

text \<open>
  C6 as stated fails for the bid and ask columns: the script never converts or checks
  them, so a row whose bid is not a number is handed to the \<open>INSERT IGNORE\<close> like any
  other (under \<open>IGNORE\<close> the server turns a value it cannot convert into a warning) and
  the import of the archive succeeds with the row inserted.
\<close>

theorem non_numeric_bid_is_inserted:
  "fst (process_zip_file ''data/EURUSD-2024-08.zip''
         (ZipArchive [(''EURUSD-2024-08.csv'',
            [(''EURUSD'', Text ''20240801 00:00:00.110'', ''abc'', ''1.08431'')])])
         \<lparr>accepts = bare_identifier, tables = Map.empty, stdout = []\<rparr>) = Inr ''EURUSD_2024_08''
   \<and> map_option table_rows
        (tables (snd (process_zip_file ''data/EURUSD-2024-08.zip''
           (ZipArchive [(''EURUSD-2024-08.csv'',
              [(''EURUSD'', Text ''20240801 00:00:00.110'', ''abc'', ''1.08431'')])])
           \<lparr>accepts = bare_identifier, tables = Map.empty, stdout = []\<rparr>)) ''EURUSD_2024_08'')
      = Some [(tick_instant, ''abc'', ''1.08431'')]"
proof -
  have a: "accepts \<lparr>accepts = bare_identifier, tables = (Map.empty :: string database),
      stdout = []\<rparr> ''EURUSD_2024_08''"
    by (simp add: bare_example)
  from process_zip_file_rows [OF table_name_example a bid_rows_example]
  show ?thesis by (simp add: insert_batch_def insert_ignore_def)
qed

text \<open>
  C6, amended. For every archive whose name resolves and is accepted by the server, a
  row whose timestamp cell does not parse aborts the import of that archive with the
  error of the parse (\<open>ValueError\<close> for a text that neither format accepts,
  \<open>TypeError\<close> for a cell that is not a text): when the rows of the batches before the
  one holding the first such row all parse, the table afterwards holds what it held
  before with exactly those rows inserted, nothing of the failing batch or of a later
  one, every other table is as it was, and the error reaches the orchestrator's loop
  unchanged (no row is skipped). Bid and ask values are not checked by the script.
\<close>

theorem failing_row_aborts_archive:
  assumes "get_table_name zip_path = Inr tn" and "accepts st tn"
    and "archive_batches entries = pre @ b # post"
    and "parse_rows (concat pre) = Inr vs"
    and "\<exists>row\<in>set b. \<exists>e. apply_parse_timestamp (fst (snd row)) = Inl e"
  shows "\<exists>e. (e = ValueError \<or> e = TypeError)
           \<and> parse_rows b = Inl e
           \<and> fst (process_zip_file zip_path (ZipArchive entries) st) = Inl e
           \<and> tables (snd (process_zip_file zip_path (ZipArchive entries) st))
               = (tables st)(tn \<mapsto>
                   (case tables st tn of
                      None \<Rightarrow> \<lparr>table_schema = tick_schema, table_rows = insert_batch [] vs\<rparr>
                    | Some t \<Rightarrow> t\<lparr>table_rows := insert_batch (table_rows t) vs\<rparr>))
           \<and> (admitted fname \<and> path_join root fname = zip_path \<longrightarrow>
                fst (process_file root fname (ZipArchive entries) st processed) = Inl e)"
proof -
  from parse_rows_fails [OF assms(5)] obtain e where bad: "parse_rows b = Inl e" by blast
  have k: "e = ValueError \<or> e = TypeError" using bad by (rule parse_rows_error)
  note f = process_zip_file_fails [OF assms(1,2,3,4) bad]
  have r: "fst (process_zip_file zip_path (ZipArchive entries) st) = Inl e"
    using f by (elim conjE)
  have t: "tables (snd (process_zip_file zip_path (ZipArchive entries) st))
      = (tables st)(tn \<mapsto>
          (case tables st tn of
             None \<Rightarrow> \<lparr>table_schema = tick_schema, table_rows = insert_batch [] vs\<rparr>
           | Some t \<Rightarrow> t\<lparr>table_rows := insert_batch (table_rows t) vs\<rparr>))"
    using f by (elim conjE)
  have p: "admitted fname \<and> path_join root fname = zip_path \<longrightarrow>
      fst (process_file root fname (ZipArchive entries) st processed) = Inl e"
    using r by (auto simp: process_file_def Let_def split: prod.splits sum.splits)
  show ?thesis using k bad r t p by blast
qed

lemma failing_batches_example:
  "archive_batches
     [(''a.csv'', [(''EURUSD'', Text ''20240801 00:00:00.110'', ''1.08423'', ''1.08431'')]),
      (''b.csv'', [(''EURUSD'', Text ''2024-08-01'', ''1.08420'', ''1.08429'')])]
   = [[(''EURUSD'', Text ''20240801 00:00:00.110'', ''1.08423'', ''1.08431'')]]
     @ [(''EURUSD'', Text ''2024-08-01'', ''1.08420'', ''1.08429'')] # []"
proof -
  have 1: "chunks chunk_size [(''EURUSD'', Text ''20240801 00:00:00.110'', ''1.08423'', ''1.08431'')]
      = [[(''EURUSD'', Text ''20240801 00:00:00.110'', ''1.08423'', ''1.08431'')]]"
    by (rule chunks_small) (simp add: chunk_size_def)
  have 2: "chunks chunk_size [(''EURUSD'', Text ''2024-08-01'', ''1.08420'', ''1.08429'')]
      = [[(''EURUSD'', Text ''2024-08-01'', ''1.08420'', ''1.08429'')]]"
    by (rule chunks_small) (simp add: chunk_size_def)
  show ?thesis by (simp add: archive_batches_def endswith_def 1 2)
qed

theorem failing_row_aborts_archive_witness:
  "fst (process_zip_file ''data/EURUSD-2024-08.zip''
         (ZipArchive
            [(''a.csv'', [(''EURUSD'', Text ''20240801 00:00:00.110'', ''1.08423'', ''1.08431'')]),
             (''b.csv'', [(''EURUSD'', Text ''2024-08-01'', ''1.08420'', ''1.08429'')])])
         \<lparr>accepts = bare_identifier, tables = Map.empty, stdout = []\<rparr>) = Inl ValueError
   \<and> map_option table_rows
        (tables (snd (process_zip_file ''data/EURUSD-2024-08.zip''
           (ZipArchive
              [(''a.csv'', [(''EURUSD'', Text ''20240801 00:00:00.110'', ''1.08423'', ''1.08431'')]),
               (''b.csv'', [(''EURUSD'', Text ''2024-08-01'', ''1.08420'', ''1.08429'')])])
           \<lparr>accepts = bare_identifier, tables = Map.empty, stdout = []\<rparr>)) ''EURUSD_2024_08'')
      = Some [(tick_instant, ''1.08423'', ''1.08431'')]"
proof -
  have a: "accepts \<lparr>accepts = bare_identifier, tables = (Map.empty :: string database),
      stdout = []\<rparr> ''EURUSD_2024_08''"
    by (simp add: bare_example)
  have g: "parse_rows (concat
      [[(''EURUSD'', Text ''20240801 00:00:00.110'', ''1.08423'', ''1.08431'')]])
    = Inr [(tick_instant, ''1.08423'', ''1.08431'')]"
    by (simp add: apply_parse_timestamp_def parse_example)
  have f: "\<exists>row\<in>set [(''EURUSD'', Text ''2024-08-01'', ''1.08420'', ''1.08429'')].
      \<exists>e. apply_parse_timestamp (fst (snd row)) = Inl e"
    by (simp add: apply_parse_timestamp_def parse_bad_example)
  have v: "parse_rows [(''EURUSD'', Text ''2024-08-01'', ''1.08420'', ''1.08429'')]
      = Inl ValueError"
    by (simp add: apply_parse_timestamp_def parse_bad_example)
  from failing_row_aborts_archive [OF table_name_example a failing_batches_example g f,
      where fname = "[]" and root = "[]" and processed = "[]"] v
  show ?thesis by (auto simp: insert_batch_def insert_ignore_def)
qed

section \<open>Facts about the outcome of a run\<close>















section \<open>Claims about the exit status\<close>




end
